theory Spec2Isabelle
  imports Main "HOL-Library.AList" "HOL-Library.Multiset"
begin

section \<open>Python values and errors\<close>

text \<open>
  The embedded program is \<^verbatim>\<open>src/baseline_system/parsers/props_wrapper.py\<close>, class
  \<^verbatim>\<open>PropSWrapper\<close>. Every exception the Python can raise is a value of \<open>error\<close>; a
  fallible function returns \<open>error + 'a\<close> with \<open>Inl\<close> for the raised exception.
\<close>

datatype error =
  ValueError | IndexError | KeyError | AssertionError | AttributeError | RuntimeError

definition ebind :: "error + 'a \<Rightarrow> ('a \<Rightarrow> error + 'b) \<Rightarrow> error + 'b" where
  "ebind m f = (case m of Inl e \<Rightarrow> Inl e | Inr x \<Rightarrow> f x)"

text \<open>A comprehension or loop whose body can raise: left to right, first exception wins.\<close>

fun emap :: "('a \<Rightarrow> error + 'b) \<Rightarrow> 'a list \<Rightarrow> error + 'b list" where
  "emap f [] = Inr []"
| "emap f (x # xs) =
     ebind (f x) (\<lambda>y. ebind (emap f xs) (\<lambda>ys. Inr (y # ys)))"

fun efilter :: "('a \<Rightarrow> error + bool) \<Rightarrow> 'a list \<Rightarrow> error + 'a list" where
  "efilter p [] = Inr []"
| "efilter p (x # xs) =
     ebind (p x) (\<lambda>b. ebind (efilter p xs) (\<lambda>ys. Inr (if b then x # ys else ys)))"

text \<open>A \<^verbatim>\<open>for\<close> loop over a list whose body updates the state and can raise.\<close>

fun efold :: "('a \<Rightarrow> 's \<Rightarrow> error + 's) \<Rightarrow> 'a list \<Rightarrow> 's \<Rightarrow> error + 's" where
  "efold f [] s = Inr s"
| "efold f (x # xs) s = ebind (f x s) (efold f xs)"

text \<open>\<^verbatim>\<open>xs[i]\<close>: a negative index counts from the end, out of range raises.\<close>

definition py_index :: "'a list \<Rightarrow> int \<Rightarrow> error + 'a" where
  "py_index xs i =
     (if 0 \<le> i \<and> i < int (length xs) then Inr (xs ! nat i)
      else if i < 0 \<and> - int (length xs) \<le> i then Inr (xs ! nat (int (length xs) + i))
      else Inl IndexError)"

text \<open>\<^verbatim>\<open>" ".join(ws)\<close> and \<^verbatim>\<open>s.split(" ")\<close>.\<close>

fun join_sp :: "string list \<Rightarrow> string" where
  "join_sp [] = []"
| "join_sp [w] = w"
| "join_sp (w # v # ws) = w @ '' '' @ join_sp (v # ws)"

fun split_sp :: "string \<Rightarrow> string list" where
  "split_sp [] = [[]]"
| "split_sp (c # cs) =
     (if c = CHR '' '' then [] # split_sp cs
      else (case split_sp cs of [] \<Rightarrow> [[c]] | w # ws \<Rightarrow> (c # w) # ws))"

text \<open>\<^verbatim>\<open>"{}".format(n)\<close> for a counter value: its decimal numeral.\<close>

definition digit_char :: "nat \<Rightarrow> char" where
  "digit_char d = char_of (48 + d)"

function str_nat :: "nat \<Rightarrow> string" where
  "str_nat n = (if n < 10 then [digit_char n] else str_nat (n div 10) @ [digit_char (n mod 10)])"
  by pat_completeness auto
termination
  by (relation "measure id") auto

text \<open>\<^verbatim>\<open>"{{{}}}".format(symbol)\<close>: the symbol between curly brackets.\<close>

definition placeholder :: "string \<Rightarrow> string" where
  "placeholder symbol = ''{'' @ symbol @ ''}''"

section \<open>The inputs: dependency tree, proposition graph, named entities\<close>

text \<open>
  A node of the dependency tree, as the wrapper reads it: its fields, its parent (read
  for \<^verbatim>\<open>.id\<close> and followed up to the root by \<^verbatim>\<open>get_dep_height\<close>) and its children (read
  for \<^verbatim>\<open>.id\<close>, \<^verbatim>\<open>.word\<close> and \<^verbatim>\<open>.parent_relation\<close>). The chain of parents of a tree is
  finite, which the datatype expresses. The root has no parent.
\<close>

datatype dep_node =
  DepNode (dep_id: int) (dep_word: string) (pos: string) (parent_relation: string)
          (parent: "dep_node option") (children: "dep_node list")

text \<open>A word of a PropS node: \<^verbatim>\<open>.index\<close> (1-based) and \<^verbatim>\<open>.word\<close>.\<close>

record tok =
  index :: int
  word :: string

text \<open>
  A node of the PropS graph. Nodes are objects: a neighbor is a reference, here the
  address of the node in the graph. \<^verbatim>\<open>is_implicit()\<close> and \<^verbatim>\<open>isConj()\<close> are methods of
  PropS, here the flags they return. \<^verbatim>\<open>neighbors()\<close> is the dictionary from relation
  label to the list of neighbors, in the order \<^verbatim>\<open>.values()\<close> and \<^verbatim>\<open>.iteritems()\<close>
  enumerate it. \<open>id_attr\<close> is the attribute \<^verbatim>\<open>.id\<close> that \<^verbatim>\<open>get_node_ind\<close> reads in its
  \<^verbatim>\<open>except\<close> branch: \<open>None\<close> when the object has no such attribute.
\<close>

record props_node =
  isPredicate :: bool
  is_implicit :: bool
  isConj :: bool
  node_text :: "tok list"
  node_str :: "tok list"
  features :: "(string \<times> string) list"
  neighbors :: "(string \<times> nat list) list"
  id_attr :: "int option"

record props_graph =
  nodes :: "nat list"
  node_at :: "nat \<Rightarrow> props_node"

text \<open>A span of spaCy: \<^verbatim>\<open>.start\<close>, \<^verbatim>\<open>.end\<close>, \<^verbatim>\<open>.root.i\<close>, \<^verbatim>\<open>.label_\<close>, \<^verbatim>\<open>.text\<close>.\<close>

record named_entity =
  ne_start :: int
  ne_end :: int
  ne_root_i :: int
  ne_label :: string
  ne_text :: string

section \<open>The state of a parse and the OKR\<close>

type_synonym entity = "string \<times> int list"

text \<open>
  What the Python runtime and the PropS library fix and the source does not: the order
  in which a \<^verbatim>\<open>set\<close> of nodes, a \<^verbatim>\<open>set\<close> of words and the items of the dictionary
  \<^verbatim>\<open>self.entities\<close> are enumerated, the number of nested calls the interpreter allows,
  and PropS's constant \<^verbatim>\<open>COPULA\<close>. A set is given to its enumeration as a list of its
  elements.
\<close>

record runtime =
  node_set_iter :: "nat list \<Rightarrow> nat list"
  word_set_iter :: "tok list \<Rightarrow> tok list"
  dict_iter :: "(string \<times> entity) list \<Rightarrow> (string \<times> entity) list"
  recursion_limit :: nat
  COPULA :: string

datatype surface = SurfaceStr string | SurfaceTok string "int list"

record head =
  Surface :: surface
  Lemma :: string
  POS :: string

record predicate =
  Bare_predicate :: entity
  Template :: string
  Head :: head
  Arguments :: "string list"

text \<open>
  The instance attributes that \<^verbatim>\<open>_init_internal_state\<close> resets. A dictionary is an
  association list with one entry per key (\<open>AList.update\<close>), looked up with \<open>map_of\<close>.
\<close>

record state =
  pred_counter :: nat
  ent_counter :: nat
  entities :: "(string \<times> entity) list"
  predicates :: "(string \<times> predicate) list"
  tok_ind_to_symbol :: "(int \<times> string) list"

definition init_internal_state :: state where
  "init_internal_state =
     \<lparr>pred_counter = 0, ent_counter = 0, entities = [], predicates = [],
      tok_ind_to_symbol = []\<rparr>"

record okr =
  Sentence :: string
  Entities :: "(string \<times> entity) list"
  Predicates :: "(string \<times> predicate) list"

section \<open>The symbol table\<close>

datatype kind = Ent | Pred

text \<open>\<^verbatim>\<open>_gensym_pred\<close> and \<^verbatim>\<open>_gensym_ent\<close>: increment the counter, format the symbol.\<close>

definition gensym_pred :: "state \<Rightarrow> string \<times> state" where
  "gensym_pred st =
     (''P'' @ str_nat (pred_counter st + 1), st\<lparr>pred_counter := pred_counter st + 1\<rparr>)"

definition gensym_ent :: "state \<Rightarrow> string \<times> state" where
  "gensym_ent st =
     (''A'' @ str_nat (ent_counter st + 1), st\<lparr>ent_counter := ent_counter st + 1\<rparr>)"

definition gensym :: "kind \<Rightarrow> state \<Rightarrow> string \<times> state" where
  "gensym k = (case k of Ent \<Rightarrow> gensym_ent | Pred \<Rightarrow> gensym_pred)"

text \<open>
  \<^verbatim>\<open>get_element_symbol(tok_ind, symbol_generator)\<close>: the generator is called only when
  the index has no symbol yet. It cannot raise.
\<close>

definition get_element_symbol :: "int \<Rightarrow> kind \<Rightarrow> state \<Rightarrow> string \<times> state" where
  "get_element_symbol tok_ind k st =
     (case map_of (tok_ind_to_symbol st) tok_ind of
        Some symbol \<Rightarrow> (symbol, st)
      | None \<Rightarrow>
          (let (symbol, st') = gensym k st
           in (symbol, st'\<lparr>tok_ind_to_symbol :=
                             AList.update tok_ind symbol (tok_ind_to_symbol st')\<rparr>)))"

definition get_entity_symbol :: "int \<Rightarrow> state \<Rightarrow> string \<times> state" where
  "get_entity_symbol tok_ind = get_element_symbol tok_ind Ent"

definition get_predicate_symbol :: "int \<Rightarrow> state \<Rightarrow> string \<times> state" where
  "get_predicate_symbol tok_ind = get_element_symbol tok_ind Pred"

text \<open>The two families of symbols, by their first letter.\<close>

definition is_entity_symbol :: "string \<Rightarrow> bool" where
  "is_entity_symbol s = (case s of [] \<Rightarrow> False | c # _ \<Rightarrow> c = CHR ''A'')"

definition is_predicate_symbol :: "string \<Rightarrow> bool" where
  "is_predicate_symbol s = (case s of [] \<Rightarrow> False | c # _ \<Rightarrow> c = CHR ''P'')"

section \<open>Reading the two graphs\<close>

text \<open>\<^verbatim>\<open>min(xs)\<close> and \<^verbatim>\<open>max(xs)\<close> of a list of integers: \<^verbatim>\<open>ValueError\<close> on the empty list.\<close>

definition py_min :: "int list \<Rightarrow> error + int" where
  "py_min xs = (case xs of [] \<Rightarrow> Inl ValueError | y # ys \<Rightarrow> Inr (fold min ys y))"

definition py_max :: "int list \<Rightarrow> error + int" where
  "py_max xs = (case xs of [] \<Rightarrow> Inl ValueError | y # ys \<Rightarrow> Inr (fold max ys y))"

text \<open>
  \<^verbatim>\<open>get_node_ind\<close> receives either kind of node. A dependency node has no attribute
  \<^verbatim>\<open>isPredicate\<close>: the \<^verbatim>\<open>try\<close> block raises and the \<^verbatim>\<open>except\<close> branch returns its
  \<^verbatim>\<open>.id\<close>. For a PropS node the \<^verbatim>\<open>try\<close> block raises when the text is empty, and the
  \<^verbatim>\<open>except\<close> branch reads \<^verbatim>\<open>node.id\<close>, which raises in turn when there is no such
  attribute.
\<close>

datatype any_node = Props props_node | Dep dep_node

definition get_node_ind :: "any_node \<Rightarrow> error + int" where
  "get_node_ind node =
     (case node of
        Dep d \<Rightarrow> Inr (dep_id d)
      | Props n \<Rightarrow>
          (case (if isPredicate n then py_min (map index (node_text n))
                 else py_max (map index (node_text n))) of
             Inr i \<Rightarrow> Inr i
           | Inl _ \<Rightarrow> (case id_attr n of Some i \<Rightarrow> Inr i | None \<Rightarrow> Inl AttributeError)))"

text \<open>The three flags of \<^verbatim>\<open>__init__\<close>.\<close>

record config =
  get_implicits :: bool
  get_zero_args :: bool
  get_conj :: bool

text \<open>\<^verbatim>\<open>get_predicates\<close>: the three filters return True when the node is to be dropped.\<close>

definition zero_arg_filter :: "config \<Rightarrow> props_node \<Rightarrow> bool" where
  "zero_arg_filter cfg node = ((\<not> get_zero_args cfg) \<and> length (neighbors node) = 0)"

definition implicit_filter :: "config \<Rightarrow> props_node \<Rightarrow> bool" where
  "implicit_filter cfg node = ((\<not> get_implicits cfg) \<and> is_implicit node)"

definition conj_filter :: "config \<Rightarrow> props_node \<Rightarrow> bool" where
  "conj_filter cfg node = ((\<not> get_conj cfg) \<and> isConj node)"

definition is_valid_pred :: "config \<Rightarrow> props_node \<Rightarrow> bool" where
  "is_valid_pred cfg node =
     (isPredicate node \<and>
      list_all (\<lambda>func. \<not> func node)
        [zero_arg_filter cfg, implicit_filter cfg, conj_filter cfg])"

definition get_predicates :: "config \<Rightarrow> props_graph \<Rightarrow> nat list" where
  "get_predicates cfg g = filter (\<lambda>a. is_valid_pred cfg (node_at g a)) (nodes g)"

text \<open>\<^verbatim>\<open>get_dep_height\<close>: the number of nodes between a node and the root.\<close>

fun get_dep_height :: "dep_node \<Rightarrow> nat" where
  "get_dep_height (DepNode i w p r None cs) = 0"
| "get_dep_height (DepNode i w p r (Some q) cs) = 1 + get_dep_height q"

text \<open>\<^verbatim>\<open>min(xs, key = f)\<close>: the first element of least key, \<^verbatim>\<open>ValueError\<close> on the empty list.\<close>

fun min_by :: "('a \<Rightarrow> nat) \<Rightarrow> 'a \<Rightarrow> 'a list \<Rightarrow> 'a" where
  "min_by f best [] = best"
| "min_by f best (x # xs) = min_by f (if f x < f best then x else best) xs"

definition py_min_key :: "('a \<Rightarrow> nat) \<Rightarrow> 'a list \<Rightarrow> error + 'a" where
  "py_min_key f xs = (case xs of [] \<Rightarrow> Inl ValueError | y # ys \<Rightarrow> Inr (min_by f y ys))"

definition matching_dep_nodes :: "dep_node list \<Rightarrow> props_node \<Rightarrow> dep_node list" where
  "matching_dep_nodes dep_tree predicate_node =
     filter (\<lambda>node. dep_id node \<in> set (map index (node_text predicate_node))) dep_tree"

definition get_dep_node :: "dep_node list \<Rightarrow> props_node \<Rightarrow> error + dep_node" where
  "get_dep_node dep_tree predicate_node =
     py_min_key get_dep_height (matching_dep_nodes dep_tree predicate_node)"


section \<open>The predicate extractor\<close>

definition AUX_LABELS :: "string list" where
  "AUX_LABELS = [''det'', ''neg'', ''aux'', ''auxpass'', ''prep'', ''cc'', ''conj'']"

definition is_props_dependent :: "props_graph \<Rightarrow> props_node \<Rightarrow> int \<Rightarrow> bool" where
  "is_props_dependent g pred_node word_ind =
     (let all_dependent_indexes =
            concat (map (\<lambda>(props_rel, props_nodes).
              concat (map (\<lambda>props_node. map index (node_text (node_at g props_node)))
                          props_nodes))
              (neighbors pred_node))
      in word_ind \<in> set all_dependent_indexes)"

definition get_mwp :: "dep_node list \<Rightarrow> props_graph \<Rightarrow> props_node \<Rightarrow> error + dep_node list" where
  "get_mwp dep_tree g predicate_node =
     (if \<not> isPredicate predicate_node then Inl AssertionError
      else ebind (get_dep_node dep_tree predicate_node) (\<lambda>dep_node.
        Inr (dep_node #
             filter (\<lambda>dep_child. parent_relation dep_child \<in> set AUX_LABELS \<and>
                                  \<not> is_props_dependent g predicate_node (dep_id dep_child))
                    (children dep_node))))"

text \<open>
  \<^verbatim>\<open>get_props_neighbors\<close> calls itself on every implicit neighbor whose first word is
  \<^verbatim>\<open>COPULA\<close>; the first argument counts the nested calls still allowed, and the
  interpreter raises when none is left. The result is a \<^verbatim>\<open>set\<close>, given by a list of
  its elements.
\<close>

definition is_sameAs :: "runtime \<Rightarrow> props_node \<Rightarrow> error + bool" where
  "is_sameAs rt neighbor =
     (if is_implicit neighbor
      then ebind (py_index (node_text neighbor) 0) (\<lambda>w. Inr (word w = COPULA rt))
      else Inr False)"

fun get_props_neighbors :: "nat \<Rightarrow> runtime \<Rightarrow> props_graph \<Rightarrow> nat \<Rightarrow> error + nat list" where
  "get_props_neighbors 0 rt g node = Inl RuntimeError"
| "get_props_neighbors (Suc depth) rt g node =
     (let all_neighbors = concat (map snd (neighbors (node_at g node)))
      in ebind (efilter (\<lambda>neighbor. is_sameAs rt (node_at g neighbor)) all_neighbors)
           (\<lambda>sameAs_neighbors.
         ebind (emap (\<lambda>sameAs_neighbor. get_props_neighbors depth rt g sameAs_neighbor)
                     sameAs_neighbors)
           (\<lambda>across.
         Inr (filter (\<lambda>n. n \<notin> set sameAs_neighbors) all_neighbors @ concat across))))"

text \<open>
  The placeholders of a list of argument nodes, each with the index it is sorted by;
  the symbols are requested from left to right.
\<close>

fun template_elements ::
  "kind \<Rightarrow> props_graph \<Rightarrow> nat list \<Rightarrow> state \<Rightarrow> error + ((int \<times> string) list \<times> state)" where
  "template_elements k g [] st = Inr ([], st)"
| "template_elements k g (node # rest) st =
     ebind (get_node_ind (Props (node_at g node))) (\<lambda>ind.
       (let (symbol, st') = get_element_symbol ind k st
        in ebind (template_elements k g rest st') (\<lambda>(elems, st'').
             Inr ((ind, placeholder symbol) # elems, st''))))"

text \<open>The symbols of a list of argument nodes, for \<^verbatim>\<open>"Arguments"\<close>.\<close>

fun argument_symbols ::
  "kind \<Rightarrow> props_graph \<Rightarrow> nat list \<Rightarrow> state \<Rightarrow> error + (string list \<times> state)" where
  "argument_symbols k g [] st = Inr ([], st)"
| "argument_symbols k g (node # rest) st =
     ebind (get_node_ind (Props (node_at g node))) (\<lambda>ind.
       (let (symbol, st') = get_element_symbol ind k st
        in ebind (argument_symbols k g rest st') (\<lambda>(symbols, st'').
             Inr (symbol # symbols, st''))))"

text \<open>The entity of a PropS node: the words of \<^verbatim>\<open>node.str\<close>, as a set, sorted by index.\<close>

definition node_entity :: "runtime \<Rightarrow> props_node \<Rightarrow> entity" where
  "node_entity rt node =
     (let sorted_entity = sort_key index (word_set_iter rt (node_str node))
      in (join_sp (map word sorted_entity), map (\<lambda>w. index w - 1) sorted_entity))"

definition add_dep_entity :: "runtime \<Rightarrow> props_graph \<Rightarrow> nat \<Rightarrow> state \<Rightarrow> error + state" where
  "add_dep_entity rt g node st =
     ebind (get_node_ind (Props (node_at g node))) (\<lambda>ind.
       (let (ent_symbol, st') = get_element_symbol ind Ent st
        in Inr (st'\<lparr>entities :=
                  AList.update ent_symbol (node_entity rt (node_at g node)) (entities st')\<rparr>)))"

definition lemma_feature :: "props_node \<Rightarrow> string" where
  "lemma_feature node = (case map_of (features node) ''Lemma'' of Some l \<Rightarrow> l | None \<Rightarrow> [])"

definition parse_predicate ::
  "runtime \<Rightarrow> dep_node list \<Rightarrow> props_graph \<Rightarrow> nat list \<Rightarrow> nat \<Rightarrow> state \<Rightarrow> error + state" where
  "parse_predicate rt dep_tree g predicate_nodes pn st =
     (let predicate_node = node_at g pn in
      if \<not> isPredicate predicate_node then Inl AssertionError
      else
      ebind (get_dep_node dep_tree predicate_node) (\<lambda>dep_tree_node.
      ebind (get_mwp dep_tree g predicate_node) (\<lambda>bare_predicate.
      let bare_predicate_str = join_sp (map dep_word (sort_key dep_id bare_predicate));
          bare_predicate_indices = map (\<lambda>node. dep_id node - 1) (sort_key dep_id bare_predicate)
      in
      ebind (get_node_ind (Props predicate_node)) (\<lambda>pred_ind.
      let (predicate_symbol, st1) = get_element_symbol pred_ind Pred st;
          predicate_items = map (\<lambda>node. (dep_id node, dep_word node)) bare_predicate
      in
      ebind (get_props_neighbors (recursion_limit rt) rt g pn) (\<lambda>neighbors1.
      let dep_preds = filter (\<lambda>node. node \<in> set predicate_nodes) (node_set_iter rt neighbors1)
      in
      ebind (get_props_neighbors (recursion_limit rt) rt g pn) (\<lambda>neighbors2.
      let dep_entities =
            filter (\<lambda>node. node \<notin> set predicate_nodes \<and> \<not> is_implicit (node_at g node))
                   (node_set_iter rt neighbors2)
      in
      ebind (template_elements Pred g dep_preds st1) (\<lambda>(pred_elements, st2).
      ebind (template_elements Ent g dep_entities st2) (\<lambda>(ent_elements, st3).
      let all_template_elements = predicate_items @ pred_elements @ ent_elements;
          template = join_sp (map snd (sort_key fst all_template_elements))
      in
      ebind (argument_symbols Ent g dep_entities st3) (\<lambda>(ent_arguments, st4).
      ebind (argument_symbols Pred g dep_preds st4) (\<lambda>(pred_arguments, st5).
      let st6 = st5\<lparr>predicates :=
                  AList.update predicate_symbol
                    \<lparr>Bare_predicate = (bare_predicate_str, bare_predicate_indices),
                     Template = template,
                     Head = \<lparr>Surface = SurfaceTok (dep_word dep_tree_node)
                                                   [dep_id dep_tree_node - 1],
                             Lemma = lemma_feature predicate_node,
                             POS = pos dep_tree_node\<rparr>,
                     Arguments = ent_arguments @ pred_arguments\<rparr>
                    (predicates st5)\<rparr>
      in efold (add_dep_entity rt g) dep_entities st6))))))))))"

section \<open>The entity splitter\<close>

definition IMPLICIT_SYMBOL :: entity where
  "IMPLICIT_SYMBOL = (''IMPLICIT'', [- 1])"

definition create_implicit_proposition :: "string list \<Rightarrow> predicate" where
  "create_implicit_proposition arg_symbols =
     \<lparr>Bare_predicate = IMPLICIT_SYMBOL,
      Template = join_sp (map placeholder arg_symbols),
      Head = \<lparr>Surface = SurfaceStr (fst IMPLICIT_SYMBOL),
              Lemma = fst IMPLICIT_SYMBOL,
              POS = fst IMPLICIT_SYMBOL\<rparr>,
      Arguments = arg_symbols\<rparr>"

definition relevant_labels :: "string list" where
  "relevant_labels =
     [''PERSON'', ''NORP'', ''FACILITY'', ''ORG'', ''GPE'', ''LOC'',
      ''PRODUCT'', ''EVENT'', ''WORK_OF_ART'', ''LANGUAGE'',
      ''DATE'', ''TIME'', ''QUANTITY'', ''MONEY'']"

text \<open>\<^verbatim>\<open>_get_named_entities\<close>, from the entities \<^verbatim>\<open>doc.ents\<close> that spaCy returns.\<close>

definition get_named_entities :: "named_entity list \<Rightarrow> named_entity list" where
  "get_named_entities doc_ents = filter (\<lambda>ent. ne_label ent \<in> set relevant_labels) doc_ents"

definition NE_to_indices :: "named_entity \<Rightarrow> int list" where
  "NE_to_indices named_entity = [ne_start named_entity .. ne_end named_entity - 1]"

text \<open>The dictionary comprehensions: a later entity overwrites an earlier one.\<close>

definition NE_root_ind_to_ent :: "named_entity list \<Rightarrow> int \<Rightarrow> named_entity option" where
  "NE_root_ind_to_ent nes = map_of (rev (map (\<lambda>ent. (ne_root_i ent, ent)) nes))"

definition all_NEs_token_indices :: "named_entity list \<Rightarrow> int list" where
  "all_NEs_token_indices nes = concat (map NE_to_indices nes)"

definition tok_ind_to_NE :: "named_entity list \<Rightarrow> int \<Rightarrow> named_entity option" where
  "tok_ind_to_NE nes =
     map_of (rev (concat (map (\<lambda>ent. map (\<lambda>ind. (ind, ent)) (NE_to_indices ent)) nes)))"

definition NE_to_entity :: "named_entity \<Rightarrow> entity" where
  "NE_to_entity named_entity = (ne_text named_entity, NE_to_indices named_entity)"

text \<open>
  The state of the loops of \<^verbatim>\<open>_split_entities\<close>: the local dictionary \<^verbatim>\<open>ret\<close>, the
  local set \<^verbatim>\<open>NEs_to_insert\<close>, and the instance.
\<close>

record split_state =
  ret :: "(string \<times> entity) list"
  NEs_to_insert :: "named_entity list"
  self :: state

text \<open>
  The named entity whose root is the word \<open>ind\<close> when it is still to insert:
  \<^verbatim>\<open>ind in NE_root_ind_to_ent and NE_root_ind_to_ent[ind] in NEs_to_insert\<close>.
\<close>

definition pending_NE_root :: "named_entity list \<Rightarrow> split_state \<Rightarrow> int \<Rightarrow> named_entity option" where
  "pending_NE_root nes ss ind =
     (case NE_root_ind_to_ent nes ind of
        None \<Rightarrow> None
      | Some ne \<Rightarrow> if ne \<in> set (NEs_to_insert ss) then Some ne else None)"

text \<open>The body of the inner loop, for one pair \<^verbatim>\<open>(word, ind)\<close> of the entity.\<close>

definition split_token ::
  "dep_node list \<Rightarrow> named_entity list \<Rightarrow> string \<Rightarrow> int \<Rightarrow> int list \<Rightarrow> string \<times> int \<Rightarrow>
   split_state \<Rightarrow> error + split_state" where
  "split_token dep_tree nes ent_head_symbol cur_head_ind ent_indices wi ss =
     (case wi of (wrd, ind) \<Rightarrow>
      ebind (py_index dep_tree (ind + 1)) (\<lambda>cur_dep_node.
      if ind + 1 = cur_head_ind \<and> map_of (ret ss) ent_head_symbol = None
      then Inr (ss\<lparr>ret := AList.update ent_head_symbol (wrd, [ind]) (ret ss)\<rparr>)
      else
        (case pending_NE_root nes ss ind of
           Some named_entity \<Rightarrow>
             (let (NE_ent_symbol, st') = get_element_symbol (ind + 1) Ent (self ss)
              in Inr (ss\<lparr>ret := AList.update NE_ent_symbol (NE_to_entity named_entity) (ret ss),
                         NEs_to_insert := removeAll named_entity (NEs_to_insert ss),
                         self := st'\<rparr>))
         | None \<Rightarrow>
             if ind \<in> set (all_NEs_token_indices nes) then Inr ss
             else if parent_relation cur_dep_node \<in> set [''det''] then Inr ss
             else if parent_relation cur_dep_node \<in> set [''prep''] \<and>
                     length (children cur_dep_node) = 1 \<and>
                     dep_id (children cur_dep_node ! 0) - 1 \<in> set ent_indices
             then
               (let prep_child = children cur_dep_node ! 0;
                    (prep_child_symbol, st1) = get_element_symbol (dep_id prep_child) Ent (self ss);
                    ret1 = AList.update prep_child_symbol
                             (dep_word prep_child, [dep_id prep_child - 1]) (ret ss);
                    (prep_symbol, st2) = get_element_symbol (ind + 1) Pred st1
                in Inr (ss\<lparr>ret := ret1,
                           self := st2\<lparr>predicates :=
                             AList.update prep_symbol
                               \<lparr>Bare_predicate = (wrd, [ind]),
                                Template = placeholder ent_head_symbol @ '' '' @ wrd @ '' '' @
                                           placeholder prep_child_symbol,
                                Head = \<lparr>Surface = SurfaceStr wrd, Lemma = wrd, POS = ''IN''\<rparr>,
                                Arguments = [ent_head_symbol, prep_child_symbol]\<rparr>
                               (predicates st2)\<rparr>\<rparr>))
             else
               ebind (if parent_relation cur_dep_node = ''pobj''
                      then (case parent cur_dep_node of
                              None \<Rightarrow> Inl AttributeError
                            | Some p \<Rightarrow> Inr (dep_id p - 1 \<in> set ent_indices))
                      else Inr False) (\<lambda>pobj_in_span.
               if pobj_in_span then Inr ss
               else
                 (let (new_ent_symbol, st1) = get_element_symbol (ind + 1) Ent (self ss);
                      ret1 = AList.update new_ent_symbol (wrd, [ind]) (ret ss);
                      (imp_symbol, st2) = gensym_pred st1
                  in Inr (ss\<lparr>ret := ret1,
                             self := st2\<lparr>predicates :=
                               AList.update imp_symbol
                                 (create_implicit_proposition
                                    (map fst (sort_key snd [(new_ent_symbol, ind + 1),
                                                            (ent_head_symbol, cur_head_ind)])))
                                 (predicates st2)\<rparr>\<rparr>))))))"

text \<open>The body of the outer loop, for one item of \<^verbatim>\<open>self.entities\<close>.\<close>

definition split_entity ::
  "dep_node list \<Rightarrow> named_entity list \<Rightarrow> (string \<Rightarrow> int option) \<Rightarrow> string \<times> entity \<Rightarrow>
   split_state \<Rightarrow> error + split_state" where
  "split_entity dep_tree nes ent_symbol_to_head_ind item ss =
     (case item of (ent_head_symbol, (ent_str, ent_indices)) \<Rightarrow>
      (case ent_symbol_to_head_ind ent_head_symbol of
         None \<Rightarrow> Inl KeyError
       | Some cur_head_ind \<Rightarrow>
           ebind (if cur_head_ind - 1 \<in> set (all_NEs_token_indices nes)
                  then (case tok_ind_to_NE nes (cur_head_ind - 1) of
                          None \<Rightarrow> Inl KeyError
                        | Some named_entity \<Rightarrow>
                            Inr (ss\<lparr>ret := AList.update ent_head_symbol
                                               (NE_to_entity named_entity) (ret ss),
                                    NEs_to_insert :=
                                      removeAll named_entity (NEs_to_insert ss)\<rparr>))
                  else Inr ss) (\<lambda>ss1.
           efold (split_token dep_tree nes ent_head_symbol cur_head_ind ent_indices)
                 (zip (split_sp ent_str) ent_indices) ss1)))"

text \<open>
  \<^verbatim>\<open>_split_entities\<close>. The inverse of \<^verbatim>\<open>tok_ind_to_symbol\<close> is built from its items, a
  later item overwriting an earlier one with the same symbol.
\<close>

definition ent_symbol_to_head_ind :: "state \<Rightarrow> string \<Rightarrow> int option" where
  "ent_symbol_to_head_ind st = map_of (rev (map (\<lambda>(k, v). (v, k)) (tok_ind_to_symbol st)))"

definition split_entities ::
  "runtime \<Rightarrow> dep_node list \<Rightarrow> named_entity list \<Rightarrow> state \<Rightarrow> error + split_state" where
  "split_entities rt dep_tree doc_ents st =
     (let nes = get_named_entities doc_ents
      in efold (split_entity dep_tree nes (ent_symbol_to_head_ind st))
               (dict_iter rt (entities st))
               \<lparr>ret = [], NEs_to_insert = nes, self = st\<rparr>)"

section \<open>The modifier linker\<close>

definition add_props_node_to_entities ::
  "runtime \<Rightarrow> props_graph \<Rightarrow> nat \<Rightarrow> state \<Rightarrow> error + state" where
  "add_props_node_to_entities rt g node st =
     ebind (get_node_ind (Props (node_at g node))) (\<lambda>ind.
       (let (symbol, st1) = get_entity_symbol ind st;
            (symbol', st2) = get_entity_symbol ind st1
        in Inr (st2\<lparr>entities :=
                  AList.update symbol' (node_entity rt (node_at g node)) (entities st2)\<rparr>)))"

text \<open>The body of the inner loop of \<^verbatim>\<open>add_modifiers_as_implicits\<close>, for one modifier.\<close>

definition add_modifier ::
  "runtime \<Rightarrow> props_graph \<Rightarrow> nat \<Rightarrow> nat \<Rightarrow> state \<Rightarrow> error + state" where
  "add_modifier rt g ent modifier st =
     ebind (emap (\<lambda>node. ebind (get_node_ind (Props (node_at g node))) (\<lambda>i. Inr (node, i)))
                 [ent, modifier]) (\<lambda>keyed.
     let ordered_args = map fst (sort_key snd keyed)
     in
     ebind (add_props_node_to_entities rt g modifier st) (\<lambda>st1.
     let (imp_sym, st2) = gensym_pred st1
     in
     ebind (argument_symbols Ent g ordered_args st2) (\<lambda>(arg_symbols, st3).
       Inr (st3\<lparr>predicates :=
              AList.update imp_sym (create_implicit_proposition arg_symbols)
                           (predicates st3)\<rparr>))))"

definition is_modifier :: "props_graph \<Rightarrow> named_entity list \<Rightarrow> nat \<Rightarrow> error + bool" where
  "is_modifier g nes md =
     (if (\<not> isPredicate (node_at g md)) \<and> (\<not> is_implicit (node_at g md))
      then ebind (get_node_ind (Props (node_at g md))) (\<lambda>i.
             Inr (i - 1 \<notin> set (all_NEs_token_indices nes)))
      else Inr False)"

text \<open>The body of the outer loop, for one node of the graph.\<close>

definition add_modifiers_of ::
  "runtime \<Rightarrow> props_graph \<Rightarrow> named_entity list \<Rightarrow> nat \<Rightarrow> state \<Rightarrow> error + state" where
  "add_modifiers_of rt g nes ent st =
     ebind (get_node_ind (Props (node_at g ent))) (\<lambda>ind.
     if map_of (tok_ind_to_symbol st) ind \<noteq> None
     then
       (let (symbol, st1) = get_entity_symbol ind st
        in if map_of (entities st1) symbol \<noteq> None
           then
             ebind (get_props_neighbors (recursion_limit rt) rt g ent) (\<lambda>neighbors1.
             ebind (efilter (is_modifier g nes) (node_set_iter rt neighbors1)) (\<lambda>modifiers.
               efold (add_modifier rt g ent) modifiers st1))
           else Inr st1)
     else Inr st)"

definition add_modifiers_as_implicits ::
  "runtime \<Rightarrow> props_graph \<Rightarrow> named_entity list \<Rightarrow> state \<Rightarrow> error + state" where
  "add_modifiers_as_implicits rt g nes st = efold (add_modifiers_of rt g nes) (nodes g) st"

section \<open>The parse\<close>

definition get_sentence :: "dep_node list \<Rightarrow> string" where
  "get_sentence dep_tree = join_sp (map dep_word (drop 1 (sort_key dep_id dep_tree)))"

text \<open>The first loop of \<^verbatim>\<open>parse_okr\<close>, over the nodes that \<^verbatim>\<open>get_predicates\<close> returns.\<close>

definition parse_predicates ::
  "runtime \<Rightarrow> config \<Rightarrow> dep_node list \<Rightarrow> props_graph \<Rightarrow> state \<Rightarrow> error + state" where
  "parse_predicates rt cfg dep_tree g st =
     (let predicate_nodes = get_predicates cfg g
      in efold (parse_predicate rt dep_tree g predicate_nodes) predicate_nodes st)"

definition parse_okr ::
  "runtime \<Rightarrow> config \<Rightarrow> dep_node list \<Rightarrow> props_graph \<Rightarrow> named_entity list \<Rightarrow> state \<Rightarrow>
   error + state" where
  "parse_okr rt cfg dep_tree g doc_ents st =
     ebind (parse_predicates rt cfg dep_tree g st) (\<lambda>st1.
     ebind (split_entities rt dep_tree doc_ents st1) (\<lambda>ss.
       add_modifiers_as_implicits rt g (get_named_entities doc_ents)
         ((self ss)\<lparr>entities := ret ss\<rparr>)))"

text \<open>\<^verbatim>\<open>parse\<close> followed by \<^verbatim>\<open>get_okr\<close>, from the graphs that PropS and spaCy return.\<close>

definition parse :: 
  "runtime \<Rightarrow> config \<Rightarrow> dep_node list \<Rightarrow> props_graph \<Rightarrow> named_entity list \<Rightarrow> error + okr" where
  "parse rt cfg dep_tree g doc_ents =
     ebind (parse_okr rt cfg dep_tree g doc_ents init_internal_state) (\<lambda>st.
       Inr \<lparr>Sentence = get_sentence dep_tree,
            Entities = entities st,
            Predicates = predicates st\<rparr>)"



text \<open>
  What the template of a predicate holds for an argument node: the index of the node
  and, between curly brackets, the symbol that the state binds to that index.
\<close>

definition template_slot :: "props_graph \<Rightarrow> state \<Rightarrow> nat \<Rightarrow> int \<times> string \<Rightarrow> bool" where
  "template_slot g st node element =
     (case get_node_ind (Props (node_at g node)) of
        Inl e \<Rightarrow> False
      | Inr ind \<Rightarrow>
          (case map_of (tok_ind_to_symbol st) ind of
             None \<Rightarrow> False
           | Some symbol \<Rightarrow> element = (ind, placeholder symbol)))"

section \<open>Invariants of a parse\<close>

text \<open>
  The symbols that the symbol table holds.
\<close>

definition sym_ran :: "state \<Rightarrow> string set" where
  "sym_ran st = snd ` set (tok_ind_to_symbol st)"

text \<open>
  A symbol is one that the counters have reached: \<open>A1\<close> to \<open>Ak\<close>, \<open>P1\<close> to \<open>Pk\<close>.
\<close>

definition symbol_format :: "state \<Rightarrow> string \<Rightarrow> bool" where
  "symbol_format st s =
     (s \<in> (\<lambda>k. ''A'' @ str_nat k) ` {1..ent_counter st} \<union>
          (\<lambda>k. ''P'' @ str_nat k) ` {1..pred_counter st})"

text \<open>
  The symbol table holds generated symbols only, and no symbol for two token indices.
\<close>

definition sym_inv :: "state \<Rightarrow> bool" where
  "sym_inv st =
     ((\<forall>(i, s) \<in> set (tok_ind_to_symbol st). symbol_format st s) \<and>
      (\<forall>(i, s) \<in> set (tok_ind_to_symbol st). \<forall>(j, s') \<in> set (tok_ind_to_symbol st).
         s = s' \<longrightarrow> i = j))"

text \<open>
  The entity symbols of the symbol table that are not keys of \<^verbatim>\<open>self.entities\<close>.
\<close>

definition uncovered :: "state \<Rightarrow> string set" where
  "uncovered st =
     {s \<in> sym_ran st. is_entity_symbol s \<and> s \<notin> fst ` set (entities st)}"

text \<open>
  The arguments of every predicate are symbols of the symbol table.
\<close>

definition args_bound :: "state \<Rightarrow> bool" where
  "args_bound st = (\<forall>pr \<in> set (predicates st). set (Arguments (snd pr)) \<subseteq> sym_ran st)"

text \<open>
  The symbol that the state binds to the index of a node.
\<close>

definition node_bound :: "props_graph \<Rightarrow> state \<Rightarrow> nat \<Rightarrow> string \<Rightarrow> bool" where
  "node_bound g st node s =
     (case get_node_ind (Props (node_at g node)) of
        Inl e \<Rightarrow> False
      | Inr i \<Rightarrow> map_of (tok_ind_to_symbol st) i = Some s)"

text \<open>
  Every item of \<^verbatim>\<open>self.entities\<close> is the entity of a node that is not implicit, under
  the symbol of its index.
\<close>

definition ents_from_nodes :: "runtime \<Rightarrow> props_graph \<Rightarrow> state \<Rightarrow> bool" where
  "ents_from_nodes rt g st =
     (\<forall>se \<in> set (entities st).
        \<exists>a. \<not> is_implicit (node_at g a) \<and> node_bound g st a (fst se) \<and>
            snd se = node_entity rt (node_at g a))"

text \<open>
  What holds of the state between two calls of \<^verbatim>\<open>parse_predicate\<close>.
\<close>

definition pass_inv :: "runtime \<Rightarrow> props_graph \<Rightarrow> state \<Rightarrow> bool" where
  "pass_inv rt g st =
     (sym_inv st \<and> args_bound st \<and> uncovered st = {} \<and> ents_from_nodes rt g st)"

text \<open>
  A node of the graph is well formed when it has words, its words are among the words of
  its subtree \<^verbatim>\<open>node.str\<close>, and no word of the subtree has a space in it (the sentence
  is split at single spaces).
\<close>

definition wf_node :: "props_node \<Rightarrow> bool" where
  "wf_node node =
     (node_text node \<noteq> [] \<and>
      index ` set (node_text node) \<subseteq> index ` set (node_str node) \<and>
      (\<forall>w \<in> set (node_str node). CHR '' '' \<notin> set (word w)))"

text \<open>
  What holds of the state of \<^verbatim>\<open>_split_entities\<close> between two tokens: every entity symbol
  of the symbol table is a key of \<^verbatim>\<open>ret\<close> or, in \<open>K\<close>, the key of an entity still to split.
\<close>

definition split_inv :: "string set \<Rightarrow> split_state \<Rightarrow> bool" where
  "split_inv K ss =
     (args_bound (self ss) \<and>
      (\<forall>s \<in> sym_ran (self ss). is_entity_symbol s \<longrightarrow> s \<in> fst ` set (ret ss) \<union> K))"

text \<open>
  An item of \<^verbatim>\<open>self.entities\<close> whose head, as \<^verbatim>\<open>_split_entities\<close> looks it up, is in a
  span of a named entity or among the tokens that the inner loop visits.
\<close>

definition item_ok ::
  "named_entity list \<Rightarrow> (string \<Rightarrow> int option) \<Rightarrow> state \<Rightarrow> string \<times> entity \<Rightarrow> bool" where
  "item_ok nes lk st item =
     (fst item \<in> sym_ran st \<and>
      (\<exists>h. lk (fst item) = Some h \<and>
           (h - 1 \<in> set (all_NEs_token_indices nes) \<or>
            (\<exists>w. (w, h - 1) \<in> set (zip (split_sp (fst (snd item))) (snd (snd item)))))))"

text \<open>
  What holds of the state between two steps of \<^verbatim>\<open>add_modifiers_as_implicits\<close>.
\<close>

definition mod_inv :: "state \<Rightarrow> bool" where
  "mod_inv st = (args_bound st \<and> uncovered st = {})"

section \<open>A runtime and a sentence to evaluate the definitions on\<close>

text \<open>
  A runtime is valid when its enumerations enumerate: a set of nodes is enumerated
  without repetition, a set of words with all its words, a dictionary with each item
  once.
\<close>

definition valid_runtime :: "runtime \<Rightarrow> bool" where
  "valid_runtime rt =
     ((\<forall>xs. set (node_set_iter rt xs) = set xs \<and> distinct (node_set_iter rt xs)) \<and>
      (\<forall>xs. set (word_set_iter rt xs) = set xs) \<and>
      (\<forall>xs. mset (dict_iter rt xs) = mset xs))"

text \<open>
  The sentence ``John visited the United States'': its dependency tree, a proposition
  graph with the predicate \<open>visited\<close> (node 0) and its two arguments (nodes 1 and 2), and
  the named entities of spaCy.
\<close>

definition rt0 :: runtime where
  "rt0 = \<lparr>node_set_iter = remdups, word_set_iter = remdups, dict_iter = (\<lambda>xs. xs),
          recursion_limit = 1000, COPULA = ''SameAs''\<rparr>"

definition cfg0 :: config where "cfg0 = \<lparr>get_implicits = False, get_zero_args = False, get_conj = False\<rparr>"

definition d_root :: dep_node where "d_root = DepNode 0 ''ROOT'' '''' '''' None []"
definition d_visited_up :: dep_node where "d_visited_up = DepNode 2 ''visited'' ''VBD'' ''root'' (Some d_root) []"
definition d_States_up :: dep_node where "d_States_up = DepNode 5 ''States'' ''NNPS'' ''dobj'' (Some d_visited_up) []"
definition d_John :: dep_node where "d_John = DepNode 1 ''John'' ''NNP'' ''nsubj'' (Some d_visited_up) []"
definition d_the :: dep_node where "d_the = DepNode 3 ''the'' ''DT'' ''det'' (Some d_States_up) []"
definition d_United :: dep_node where "d_United = DepNode 4 ''United'' ''NNP'' ''nn'' (Some d_States_up) []"
definition d_States :: dep_node where "d_States = DepNode 5 ''States'' ''NNPS'' ''dobj'' (Some d_visited_up) [d_the, d_United]"
definition d_visited :: dep_node where "d_visited = DepNode 2 ''visited'' ''VBD'' ''root'' (Some d_root) [d_John, d_States]"
definition dep1 :: "dep_node list" where
  "dep1 = [DepNode 0 ''ROOT'' '''' '''' None [d_visited], d_John, d_visited, d_the, d_United, d_States]"

definition mk_node :: "bool \<Rightarrow> tok list \<Rightarrow> tok list \<Rightarrow> (string \<times> nat list) list \<Rightarrow> props_node" where
  "mk_node p t s nb = \<lparr>isPredicate = p, is_implicit = False, isConj = False, node_text = t, node_str = s,
     features = [], neighbors = nb, id_attr = None\<rparr>"

definition g1 :: props_graph where
  "g1 = \<lparr>nodes = [0, 1, 2],
         node_at = (\<lambda>a. if a = 0 then mk_node True [\<lparr>index = 2, word = ''visited''\<rparr>] [\<lparr>index = 2, word = ''visited''\<rparr>] [(''subj'', [1]), (''dobj'', [2])]
                    else if a = 1 then mk_node False [\<lparr>index = 1, word = ''John''\<rparr>] [\<lparr>index = 1, word = ''John''\<rparr>] []
                    else mk_node False [\<lparr>index = 4, word = ''United''\<rparr>, \<lparr>index = 5, word = ''States''\<rparr>]
                           [\<lparr>index = 3, word = ''the''\<rparr>, \<lparr>index = 4, word = ''United''\<rparr>, \<lparr>index = 5, word = ''States''\<rparr>] [])\<rparr>"

definition ner1 :: "named_entity list" where
  "ner1 = [\<lparr>ne_start = 0, ne_end = 1, ne_root_i = 0, ne_label = ''PERSON'', ne_text = ''John''\<rparr>,
           \<lparr>ne_start = 2, ne_end = 5, ne_root_i = 4, ne_label = ''GPE'', ne_text = ''the United States''\<rparr>]"

text \<open>The same graph, its predicate on a token that the dependency tree does not have.\<close>

definition g_mismatch :: props_graph where
  "g_mismatch =
     g1\<lparr>node_at := (node_at g1)
           (0 := mk_node True [\<lparr>index = 9, word = ''visited''\<rparr>]
                   [\<lparr>index = 9, word = ''visited''\<rparr>] [(''subj'', [1]), (''dobj'', [2])])\<rparr>"


text \<open>
  ``men living in New York smiled'': the predicates \<open>living\<close> (node 0) and \<open>smiled\<close>
  (node 1), the entity \<open>men\<close> (node 2) whose words are its subtree, and the entity
  \<open>New York\<close> (node 3), which spaCy recognises.
\<close>

definition m_root :: dep_node where "m_root = DepNode 0 ''ROOT'' [] [] None []"
definition m_smiled_up :: dep_node where
  "m_smiled_up = DepNode 6 ''smiled'' ''VBD'' ''root'' (Some m_root) []"
definition m_men_up :: dep_node where
  "m_men_up = DepNode 1 ''men'' ''NNS'' ''nsubj'' (Some m_smiled_up) []"
definition m_living_up :: dep_node where
  "m_living_up = DepNode 2 ''living'' ''VBG'' ''partmod'' (Some m_men_up) []"
definition m_in_up :: dep_node where
  "m_in_up = DepNode 3 ''in'' ''IN'' ''prep'' (Some m_living_up) []"
definition m_York_up :: dep_node where
  "m_York_up = DepNode 5 ''York'' ''NNP'' ''pobj'' (Some m_in_up) []"
definition m_New :: dep_node where
  "m_New = DepNode 4 ''New'' ''NNP'' ''nn'' (Some m_York_up) []"
definition m_York :: dep_node where
  "m_York = DepNode 5 ''York'' ''NNP'' ''pobj'' (Some m_in_up) [m_New]"
definition m_in :: dep_node where
  "m_in = DepNode 3 ''in'' ''IN'' ''prep'' (Some m_living_up) [m_York]"
definition m_living :: dep_node where
  "m_living = DepNode 2 ''living'' ''VBG'' ''partmod'' (Some m_men_up) [m_in]"
definition m_men :: dep_node where
  "m_men = DepNode 1 ''men'' ''NNS'' ''nsubj'' (Some m_smiled_up) [m_living]"
definition m_smiled :: dep_node where
  "m_smiled = DepNode 6 ''smiled'' ''VBD'' ''root'' (Some m_root) [m_men]"

definition dep2 :: "dep_node list" where
  "dep2 = [DepNode 0 ''ROOT'' [] [] None [m_smiled],
           m_men, m_living, m_in, m_New, m_York, m_smiled]"

definition g2 :: props_graph where
  "g2 = \<lparr>nodes = [0, 1, 2, 3],
         node_at = (\<lambda>a.
           if a = 0 then mk_node True [\<lparr>index = 2, word = ''living''\<rparr>]
                           [\<lparr>index = 2, word = ''living''\<rparr>]
                           [(''prep_in'', [3]), (''subj'', [2])]
           else if a = 1 then mk_node True [\<lparr>index = 6, word = ''smiled''\<rparr>]
                           [\<lparr>index = 6, word = ''smiled''\<rparr>] [(''subj'', [2])]
           else if a = 2 then mk_node False [\<lparr>index = 1, word = ''men''\<rparr>]
                           [\<lparr>index = 1, word = ''men''\<rparr>, \<lparr>index = 2, word = ''living''\<rparr>,
                            \<lparr>index = 3, word = ''in''\<rparr>, \<lparr>index = 4, word = ''New''\<rparr>,
                            \<lparr>index = 5, word = ''York''\<rparr>] []
           else mk_node False [\<lparr>index = 4, word = ''New''\<rparr>, \<lparr>index = 5, word = ''York''\<rparr>]
                           [\<lparr>index = 4, word = ''New''\<rparr>, \<lparr>index = 5, word = ''York''\<rparr>] [])\<rparr>"

definition ner2 :: "named_entity list" where
  "ner2 = [\<lparr>ne_start = 3, ne_end = 5, ne_root_i = 4, ne_label = ''GPE'',
            ne_text = ''New York''\<rparr>]"

text \<open>
  ``John liked the gift to Mary'': the predicate \<open>liked\<close> (node 0) and its arguments
  \<open>John\<close> (node 1) and \<open>gift\<close> (node 2), whose words are ``the gift to Mary''.
\<close>

definition t_root :: dep_node where "t_root = DepNode 0 ''ROOT'' [] [] None []"
definition t_liked_up :: dep_node where
  "t_liked_up = DepNode 2 ''liked'' ''VBD'' ''root'' (Some t_root) []"
definition t_gift_up :: dep_node where
  "t_gift_up = DepNode 4 ''gift'' ''NN'' ''dobj'' (Some t_liked_up) []"
definition t_to_up :: dep_node where
  "t_to_up = DepNode 5 ''to'' ''TO'' ''prep'' (Some t_gift_up) []"
definition t_John :: dep_node where
  "t_John = DepNode 1 ''John'' ''NNP'' ''nsubj'' (Some t_liked_up) []"
definition t_the :: dep_node where
  "t_the = DepNode 3 ''the'' ''DT'' ''det'' (Some t_gift_up) []"
definition t_Mary :: dep_node where
  "t_Mary = DepNode 6 ''Mary'' ''NNP'' ''pobj'' (Some t_to_up) []"
definition t_to :: dep_node where
  "t_to = DepNode 5 ''to'' ''TO'' ''prep'' (Some t_gift_up) [t_Mary]"
definition t_gift :: dep_node where
  "t_gift = DepNode 4 ''gift'' ''NN'' ''dobj'' (Some t_liked_up) [t_the, t_to]"
definition t_liked :: dep_node where
  "t_liked = DepNode 2 ''liked'' ''VBD'' ''root'' (Some t_root) [t_John, t_gift]"

definition dep3 :: "dep_node list" where
  "dep3 = [DepNode 0 ''ROOT'' [] [] None [t_liked],
           t_John, t_liked, t_the, t_gift, t_to, t_Mary]"

definition g3 :: props_graph where
  "g3 = \<lparr>nodes = [0, 1, 2],
         node_at = (\<lambda>a.
           if a = 0 then mk_node True [\<lparr>index = 2, word = ''liked''\<rparr>]
                           [\<lparr>index = 2, word = ''liked''\<rparr>]
                           [(''subj'', [1]), (''dobj'', [2])]
           else if a = 1 then mk_node False [\<lparr>index = 1, word = ''John''\<rparr>]
                           [\<lparr>index = 1, word = ''John''\<rparr>] []
           else mk_node False [\<lparr>index = 4, word = ''gift''\<rparr>]
                           [\<lparr>index = 3, word = ''the''\<rparr>, \<lparr>index = 4, word = ''gift''\<rparr>,
                            \<lparr>index = 5, word = ''to''\<rparr>, \<lparr>index = 6, word = ''Mary''\<rparr>] [])\<rparr>"

text \<open>The named entities of the sentence: none, and one that covers ``gift to Mary''.\<close>

definition ner3 :: "named_entity list" where
  "ner3 = [\<lparr>ne_start = 3, ne_end = 6, ne_root_i = 3, ne_label = ''WORK_OF_ART'',
            ne_text = ''gift to Mary''\<rparr>]"

text \<open>
  A state of the inner loop of \<^verbatim>\<open>_split_entities\<close> for this sentence: the entity
  \<open>A2\<close>, ``the gift to Mary'', has its head in \<^verbatim>\<open>ret\<close>.
\<close>

definition st_liked :: state where
  "st_liked = \<lparr>pred_counter = 1, ent_counter = 2,
      entities = [(''A1'', (''John'', [0])), (''A2'', (''the gift to Mary'', [2, 3, 4, 5]))],
      predicates = [],
      tok_ind_to_symbol = [(2, ''P1''), (1, ''A1''), (4, ''A2'')]\<rparr>"

definition ss_liked :: split_state where
  "ss_liked = \<lparr>ret = [(''A2'', (''gift'', [3]))], NEs_to_insert = [], self = st_liked\<rparr>"



section \<open>Properties\<close>

subsection \<open>Exceptions and loops\<close>

lemma ebind_Inr [simp]: "ebind (Inr x) f = f x"
  by (simp add: ebind_def)

lemma ebind_Inl [simp]: "ebind (Inl e) f = Inl e"
  by (simp add: ebind_def)

lemma ebind_eq_Inr: "ebind m f = Inr y \<longleftrightarrow> (\<exists>x. m = Inr x \<and> f x = Inr y)"
  by (cases m) simp_all

lemma efold_raises:
  assumes "x \<in> set xs" and "\<And>s. \<exists>e. f x s = Inl e"
  shows "\<exists>e. efold f xs s = Inl e"
  using assms(1)
proof (induction xs arbitrary: s)
  case Nil
  then show ?case by simp
next
  case (Cons y ys)
  show ?case
  proof (cases "f y s")
    case (Inl e)
    then show ?thesis by simp
  next
    case (Inr s')
    show ?thesis
    proof (cases "x = y")
      case True
      with assms(2)[of s] Inr show ?thesis by auto
    next
      case False
      with Cons.prems have "x \<in> set ys" by simp
      from Cons.IH[OF this, of s'] Inr show ?thesis by simp
    qed
  qed
qed

lemma min_by_mem: "min_by f b xs \<in> set (b # xs)"
  by (induction xs arbitrary: b) auto

lemma min_by_le_best: "f (min_by f b xs) \<le> f b"
proof (induction xs arbitrary: b)
  case Nil
  show ?case by simp
next
  case (Cons x xs)
  have "f (min_by f (if f x < f b then x else b) xs) \<le> f (if f x < f b then x else b)"
    by (rule Cons.IH)
  then show ?case by (auto split: if_splits)
qed

lemma min_by_le: "y \<in> set (b # xs) \<Longrightarrow> f (min_by f b xs) \<le> f y"
proof (induction xs arbitrary: b)
  case Nil
  then show ?case by simp
next
  case (Cons x xs)
  let ?b = "if f x < f b then x else b"
  from Cons.prems consider "y = b" | "y = x" | "y \<in> set xs" by auto
  then show ?case
  proof cases
    case 1
    have "f (min_by f ?b xs) \<le> f ?b" by (rule min_by_le_best)
    with 1 show ?thesis by (auto split: if_splits)
  next
    case 2
    have "f (min_by f ?b xs) \<le> f ?b" by (rule min_by_le_best)
    with 2 show ?thesis by (auto split: if_splits)
  next
    case 3
    then have "y \<in> set (?b # xs)" by simp
    from Cons.IH[OF this] show ?thesis by simp
  qed
qed

lemma get_dep_node_no_match:
  "matching_dep_nodes dep_tree n = [] \<Longrightarrow> get_dep_node dep_tree n = Inl ValueError"
  by (simp add: get_dep_node_def py_min_key_def)

lemma get_dep_node_match:
  assumes "matching_dep_nodes dep_tree n \<noteq> []"
  shows "\<exists>d. get_dep_node dep_tree n = Inr d \<and> d \<in> set (matching_dep_nodes dep_tree n) \<and>
             (\<forall>d' \<in> set (matching_dep_nodes dep_tree n). get_dep_height d \<le> get_dep_height d')"
proof -
  from assms obtain y ys where m: "matching_dep_nodes dep_tree n = y # ys"
    by (cases "matching_dep_nodes dep_tree n") auto
  have "get_dep_node dep_tree n = Inr (min_by get_dep_height y ys)"
    by (simp add: get_dep_node_def py_min_key_def m)
  moreover have "min_by get_dep_height y ys \<in> set (y # ys)" by (rule min_by_mem)
  moreover have "\<forall>d' \<in> set (y # ys). get_dep_height (min_by get_dep_height y ys) \<le> get_dep_height d'"
    using min_by_le[of _ y ys get_dep_height] by blast
  ultimately show ?thesis unfolding m by blast
qed

lemma parse_predicate_no_match:
  assumes "matching_dep_nodes dep_tree (node_at g pn) = []"
  shows "\<exists>e. parse_predicate rt dep_tree g pns pn st = Inl e"
  using get_dep_node_no_match[OF assms]
  by (simp add: parse_predicate_def Let_def)

lemma parse_okr_no_match:
  assumes "pn \<in> set (get_predicates cfg g)"
    and "matching_dep_nodes dep_tree (node_at g pn) = []"
  shows "\<exists>e. parse_okr rt cfg dep_tree g doc_ents st = Inl e"
proof -
  have "\<exists>e. efold (parse_predicate rt dep_tree g (get_predicates cfg g)) (get_predicates cfg g) st = Inl e"
    by (rule efold_raises[OF assms(1)]) (rule parse_predicate_no_match[OF assms(2)])
  then show ?thesis by (auto simp: parse_okr_def parse_predicates_def Let_def)
qed

lemma parse_no_match:
  assumes "pn \<in> set (get_predicates cfg g)"
    and "matching_dep_nodes dep_tree (node_at g pn) = []"
  shows "\<exists>e. parse rt cfg dep_tree g doc_ents = Inl e"
  using parse_okr_no_match[OF assms, of rt doc_ents init_internal_state]
  by (auto simp: parse_def)

subsection \<open>The anchor of a predicate in the dependency tree\<close>

text \<open>
  Claim C8. When no token of the dependency tree has the index of a word of the node,
  \<^verbatim>\<open>get_dep_node\<close> raises (\<^verbatim>\<open>min\<close> of an empty list), so does \<^verbatim>\<open>parse_predicate\<close> on
  that node from any state, and when the node is one of the selected predicates the
  whole parse raises and returns no OKR. When some token matches, the anchor is a
  matching token and no matching token is closer to the root.
\<close>

theorem get_dep_node_anchor:
  "(matching_dep_nodes dep_tree (node_at g pn) = [] \<longrightarrow>
      get_dep_node dep_tree (node_at g pn) = Inl ValueError \<and>
      (\<forall>pns st. \<exists>e. parse_predicate rt dep_tree g pns pn st = Inl e) \<and>
      (pn \<in> set (get_predicates cfg g) \<longrightarrow> (\<exists>e. parse rt cfg dep_tree g doc_ents = Inl e))) \<and>
   (matching_dep_nodes dep_tree (node_at g pn) \<noteq> [] \<longrightarrow>
      (\<exists>d. get_dep_node dep_tree (node_at g pn) = Inr d \<and>
           d \<in> set (matching_dep_nodes dep_tree (node_at g pn)) \<and>
           (\<forall>d' \<in> set (matching_dep_nodes dep_tree (node_at g pn)).
              get_dep_height d \<le> get_dep_height d')))"
  using get_dep_node_no_match[of dep_tree "node_at g pn"]
        parse_predicate_no_match[of dep_tree g pn rt]
        parse_no_match[of pn cfg g dep_tree rt doc_ents]
        get_dep_node_match[of dep_tree "node_at g pn"]
  by blast

theorem get_dep_node_anchor_witness:
  "matching_dep_nodes dep1 (node_at g_mismatch 0) = [] \<and>
   0 \<in> set (get_predicates cfg0 g_mismatch) \<and>
   get_dep_node dep1 (node_at g_mismatch 0) = Inl ValueError \<and>
   (\<exists>e. parse rt0 cfg0 dep1 g_mismatch ner1 = Inl e) \<and>
   matching_dep_nodes dep1 (node_at g1 0) \<noteq> [] \<and>
   (\<exists>d. get_dep_node dep1 (node_at g1 0) = Inr d \<and>
        d \<in> set (matching_dep_nodes dep1 (node_at g1 0)) \<and>
        get_dep_height d \<le> get_dep_height d_visited)"
proof -
  have a: "matching_dep_nodes dep1 (node_at g_mismatch 0) = []" by code_simp
  have b: "0 \<in> set (get_predicates cfg0 g_mismatch)" by code_simp
  have c: "matching_dep_nodes dep1 (node_at g1 0) \<noteq> []" by code_simp
  have d: "d_visited \<in> set (matching_dep_nodes dep1 (node_at g1 0))" by code_simp
  from get_dep_node_anchor[of dep1 g_mismatch 0 rt0 cfg0 ner1] a b
  have "get_dep_node dep1 (node_at g_mismatch 0) = Inl ValueError"
    and "\<exists>e. parse rt0 cfg0 dep1 g_mismatch ner1 = Inl e" by blast+
  moreover from get_dep_node_anchor[of dep1 g1 0 rt0 cfg0 ner1] c d
  have "\<exists>d. get_dep_node dep1 (node_at g1 0) = Inr d \<and>
        d \<in> set (matching_dep_nodes dep1 (node_at g1 0)) \<and>
        get_dep_height d \<le> get_dep_height d_visited" by blast
  ultimately show ?thesis using a b c by blast
qed

subsection \<open>The index of a node\<close>

lemma py_min_eq: "xs \<noteq> [] \<Longrightarrow> py_min xs = Inr (Min (set xs))"
  by (cases xs) (simp_all add: py_min_def Min.set_eq_fold[symmetric])

lemma py_max_eq: "xs \<noteq> [] \<Longrightarrow> py_max xs = Inr (Max (set xs))"
  by (cases xs) (simp_all add: py_max_def Max.set_eq_fold[symmetric])

text \<open>
  Claim C10. For a PropS node that is not a predicate \<^verbatim>\<open>get_node_ind\<close> is the greatest
  index of the words of its text (its last word), for a predicate node the least one.
  When the text is empty the computation raises inside the \<^verbatim>\<open>try\<close> block, and the
  \<^verbatim>\<open>except\<close> branch returns the attribute \<^verbatim>\<open>id\<close> of the node; so it does for a
  dependency node. This one function is what \<^verbatim>\<open>parse_predicate\<close>,
  \<^verbatim>\<open>add_props_node_to_entities\<close> and \<^verbatim>\<open>add_modifiers_as_implicits\<close> call to key the
  symbol of a node, to place its placeholder and to order the arguments of an implicit
  proposition.
\<close>

theorem get_node_ind_projection:
  "(\<not> isPredicate n \<and> node_text n \<noteq> [] \<longrightarrow>
      get_node_ind (Props n) = Inr (Max (index ` set (node_text n)))) \<and>
   (isPredicate n \<and> node_text n \<noteq> [] \<longrightarrow>
      get_node_ind (Props n) = Inr (Min (index ` set (node_text n)))) \<and>
   (node_text n = [] \<and> id_attr n = Some i \<longrightarrow> get_node_ind (Props n) = Inr i) \<and>
   get_node_ind (Dep d) = Inr (dep_id d)"
  by (simp add: get_node_ind_def py_min_eq py_max_eq) (simp add: py_min_def py_max_def)

theorem get_node_ind_projection_witness:
  "get_node_ind (Props (node_at g1 2)) = Inr 5 \<and>
   get_node_ind (Props ((node_at g1 2)\<lparr>isPredicate := True\<rparr>)) = Inr 4 \<and>
   get_node_ind (Props ((node_at g1 2)\<lparr>node_text := [], id_attr := Some 7\<rparr>)) = Inr 7"
proof -
  have a: "\<not> isPredicate (node_at g1 2) \<and> node_text (node_at g1 2) \<noteq> []" by code_simp
  have b: "Max (index ` set (node_text (node_at g1 2))) = 5" by code_simp
  have c: "Min (index ` set (node_text ((node_at g1 2)\<lparr>isPredicate := True\<rparr>))) = 4" by code_simp
  have d: "node_text ((node_at g1 2)\<lparr>isPredicate := True\<rparr>) \<noteq> []" by code_simp
  from get_node_ind_projection[of "node_at g1 2"] a b
  have "get_node_ind (Props (node_at g1 2)) = Inr 5" by simp
  moreover from get_node_ind_projection[of "(node_at g1 2)\<lparr>isPredicate := True\<rparr>"] c d
  have "get_node_ind (Props ((node_at g1 2)\<lparr>isPredicate := True\<rparr>)) = Inr 4" by simp
  moreover from get_node_ind_projection[of "(node_at g1 2)\<lparr>node_text := [], id_attr := Some 7\<rparr>" 7]
  have "get_node_ind (Props ((node_at g1 2)\<lparr>node_text := [], id_attr := Some 7\<rparr>)) = Inr 7" by simp
  ultimately show ?thesis by blast
qed

subsection \<open>The symbol table\<close>

text \<open>
  Claim C7, as stated, fails: \<^verbatim>\<open>get_element_symbol\<close> has no check of the kind. After
  an entity symbol is bound to token 3, the request of a predicate symbol for token 3
  returns the entity symbol \<open>A1\<close> and leaves the state as it is.
\<close>

theorem get_element_symbol_other_kind_counterexample:
  "get_predicate_symbol 3 (snd (get_entity_symbol 3 init_internal_state)) =
     (''A1'', snd (get_entity_symbol 3 init_internal_state)) \<and>
   is_entity_symbol ''A1'' \<and> \<not> is_predicate_symbol ''A1''"
  by code_simp

text \<open>
  Claim C7, amended: a request for a token index that already has a symbol returns that
  symbol, whatever the kind requested, and changes nothing; no exception is raised.
\<close>

theorem get_element_symbol_memoized:
  "map_of (tok_ind_to_symbol st) tok_ind = Some symbol \<Longrightarrow>
   get_element_symbol tok_ind k st = (symbol, st)"
  by (simp add: get_element_symbol_def)

theorem get_element_symbol_memoized_witness:
  "map_of (tok_ind_to_symbol (snd (get_entity_symbol 3 init_internal_state))) 3 = Some ''A1'' \<and>
   get_element_symbol 3 Pred (snd (get_entity_symbol 3 init_internal_state)) =
     (''A1'', snd (get_entity_symbol 3 init_internal_state))"
proof -
  have a: "map_of (tok_ind_to_symbol (snd (get_entity_symbol 3 init_internal_state))) 3 = Some ''A1''"
    by code_simp
  from get_element_symbol_memoized[OF a, of Pred] a show ?thesis by simp
qed

subsection \<open>The selection of predicates\<close>







lemma valid_runtime_rt0: "valid_runtime rt0"
  by (simp add: valid_runtime_def rt0_def)


subsection \<open>Symbols and the state\<close>

lemma gensym_fields [simp]:
  "tok_ind_to_symbol (snd (gensym k st)) = tok_ind_to_symbol st"
  "entities (snd (gensym k st)) = entities st"
  "predicates (snd (gensym k st)) = predicates st"
  by (cases k; simp add: gensym_def gensym_ent_def gensym_pred_def)+

lemma gensym_pred_fields [simp]:
  "tok_ind_to_symbol (snd (gensym_pred st)) = tok_ind_to_symbol st"
  "entities (snd (gensym_pred st)) = entities st"
  "predicates (snd (gensym_pred st)) = predicates st"
  by (simp_all add: gensym_pred_def)

lemma get_element_symbol_cases:
  assumes "get_element_symbol i k st = (s, st')"
  obtains (bound) "map_of (tok_ind_to_symbol st) i = Some s" and "st' = st"
  | (fresh) "map_of (tok_ind_to_symbol st) i = None" and "s = fst (gensym k st)"
      and "st' = (snd (gensym k st))\<lparr>tok_ind_to_symbol := AList.update i s (tok_ind_to_symbol st)\<rparr>"
  using assms
  by (cases "map_of (tok_ind_to_symbol st) i")
     (auto simp: get_element_symbol_def split_beta Let_def)

lemma get_element_symbol_bound:
  "get_element_symbol i k st = (s, st') \<Longrightarrow> map_of (tok_ind_to_symbol st') i = Some s"
  by (erule get_element_symbol_cases) (simp_all add: update_conv')

lemma get_element_symbol_le:
  "get_element_symbol i k st = (s, st') \<Longrightarrow>
   map_of (tok_ind_to_symbol st) \<subseteq>\<^sub>m map_of (tok_ind_to_symbol st')"
  by (erule get_element_symbol_cases) (auto simp: update_conv' map_le_def)

lemma get_element_symbol_keeps:
  assumes "get_element_symbol i k st = (s, st')"
  shows "predicates st' = predicates st" and "entities st' = entities st"
  using assms by (auto elim!: get_element_symbol_cases)

lemma map_leD: "m \<subseteq>\<^sub>m m' \<Longrightarrow> m x = Some y \<Longrightarrow> m' x = Some y"
  by (auto simp: map_le_def dom_def)

subsection \<open>The entity splitter, token by token\<close>




text \<open>
  Claim C5, as stated, fails. In ``John liked the gift to Mary'' the token \<open>to\<close> has the
  relation \<open>prep\<close>, one child, \<open>Mary\<close>, inside the span, and the part of speech \<open>TO\<close>.
  Without named entities the predicate \<open>P2\<close> is emitted with the part of speech \<open>IN\<close>
  in its head, not the one of the token. With a named entity over ``gift to Mary''
  no predicate and no entity is emitted for the preposition: its token is skipped.
\<close>

theorem split_token_prep_counterexample:
  "parent_relation (dep3 ! 5) = ''prep'' \<and> children (dep3 ! 5) = [t_Mary] \<and>
   dep_word (dep3 ! 5) = ''to'' \<and> pos (dep3 ! 5) = ''TO'' \<and>
   (case parse rt0 cfg0 dep3 g3 [] of
      Inl e \<Rightarrow> False
    | Inr r \<Rightarrow>
        map_of (Entities r) ''A2'' = Some (''gift'', [3]) \<and>
        map_option Head (map_of (Predicates r) ''P2'') =
          Some \<lparr>Surface = SurfaceStr ''to'', Lemma = ''to'', POS = ''IN''\<rparr>) \<and>
   (case parse rt0 cfg0 dep3 g3 ner3 of
      Inl e \<Rightarrow> False
    | Inr r \<Rightarrow>
        map_of (Entities r) ''A2'' = Some (''gift to Mary'', [3, 4, 5]) \<and>
        map fst (Entities r) = [''A1'', ''A2''] \<and> map fst (Predicates r) = [''P1''])"
  by code_simp

text \<open>
  Claim C5, amended: for a token of an entity span whose relation is \<open>prep\<close>, that has
  exactly one child, whose index lies in the span, and that is not the head of the entity
  still without a record, not the root of a named entity still to insert and not inside
  a span of a named entity, the splitter binds an entity symbol to the child (or takes
  the one it has) and gives it the child's word and index as record, binds a predicate
  symbol to the token and stores under it the predicate whose template is
  \<open>{head} word {child}\<close>, whose head has the word of the span as surface and as lemma
  and the constant \<open>IN\<close> as part of speech, and whose arguments are the head symbol and
  the child symbol in that order.
\<close>

theorem split_token_prep:
  assumes "py_index dep_tree (ind + 1) = Inr cur_dep_node"
    and "parent_relation cur_dep_node = ''prep''"
    and "children cur_dep_node = [prep_child]"
    and "dep_id prep_child - 1 \<in> set ent_indices"
    and "\<not> (ind + 1 = cur_head_ind \<and> map_of (ret ss) ent_head_symbol = None)"
    and "pending_NE_root nes ss ind = None"
    and "ind \<notin> set (all_NEs_token_indices nes)"
  shows "\<exists>ss' prep_child_symbol prep_symbol.
           split_token dep_tree nes ent_head_symbol cur_head_ind ent_indices (wrd, ind) ss = Inr ss' \<and>
           map_of (tok_ind_to_symbol (self ss')) (dep_id prep_child) = Some prep_child_symbol \<and>
           map_of (tok_ind_to_symbol (self ss')) (ind + 1) = Some prep_symbol \<and>
           map_of (ret ss') prep_child_symbol = Some (dep_word prep_child, [dep_id prep_child - 1]) \<and>
           map_of (predicates (self ss')) prep_symbol =
             Some \<lparr>Bare_predicate = (wrd, [ind]),
                   Template = ''{'' @ ent_head_symbol @ ''} '' @ wrd @ '' {'' @ prep_child_symbol @ ''}'',
                   Head = \<lparr>Surface = SurfaceStr wrd, Lemma = wrd, POS = ''IN''\<rparr>,
                   Arguments = [ent_head_symbol, prep_child_symbol]\<rparr>"
proof -
  obtain cs st1 where g1: "get_element_symbol (dep_id prep_child) Ent (self ss) = (cs, st1)"
    by (cases "get_element_symbol (dep_id prep_child) Ent (self ss)")
  obtain ps st2 where g2: "get_element_symbol (ind + 1) Pred st1 = (ps, st2)"
    by (cases "get_element_symbol (ind + 1) Pred st1")
  let ?rec = "\<lparr>Bare_predicate = (wrd, [ind]),
               Template = placeholder ent_head_symbol @ '' '' @ wrd @ '' '' @ placeholder cs,
               Head = \<lparr>Surface = SurfaceStr wrd, Lemma = wrd, POS = ''IN''\<rparr>,
               Arguments = [ent_head_symbol, cs]\<rparr>"
  let ?ss' = "ss\<lparr>ret := AList.update cs (dep_word prep_child, [dep_id prep_child - 1]) (ret ss),
                 self := st2\<lparr>predicates := AList.update ps ?rec (predicates st2)\<rparr>\<rparr>"
  have "parent_relation cur_dep_node \<noteq> ''det''" using assms(2) by simp
  then have r: "split_token dep_tree nes ent_head_symbol cur_head_ind ent_indices (wrd, ind) ss = Inr ?ss'"
    using assms g1 g2 by (auto simp: split_token_def Let_def)
  have "map_of (tok_ind_to_symbol st2) (dep_id prep_child) = Some cs"
    using get_element_symbol_bound[OF g1] get_element_symbol_le[OF g2] by (rule map_leD[rotated])
  moreover have "map_of (tok_ind_to_symbol st2) (ind + 1) = Some ps"
    by (rule get_element_symbol_bound[OF g2])
  moreover have "map_of (ret ?ss') cs = Some (dep_word prep_child, [dep_id prep_child - 1])"
    by (simp add: update_conv')
  moreover have "map_of (predicates (self ?ss')) ps =
     Some \<lparr>Bare_predicate = (wrd, [ind]),
           Template = ''{'' @ ent_head_symbol @ ''} '' @ wrd @ '' {'' @ cs @ ''}'',
           Head = \<lparr>Surface = SurfaceStr wrd, Lemma = wrd, POS = ''IN''\<rparr>,
           Arguments = [ent_head_symbol, cs]\<rparr>"
    by (simp add: update_conv' placeholder_def)
  ultimately show ?thesis using r by (intro exI[of _ ?ss'] exI[of _ cs] exI[of _ ps]) simp
qed

theorem split_token_prep_witness:
  "py_index dep3 (4 + 1) = Inr t_to \<and> parent_relation t_to = ''prep'' \<and>
   children t_to = [t_Mary] \<and> dep_id t_Mary - 1 \<in> set [2, 3, 4, 5] \<and>
   (4::int) + 1 \<noteq> 4 \<and> pending_NE_root [] ss_liked 4 = None \<and>
   4 \<notin> set (all_NEs_token_indices []) \<and>
   (\<exists>ss' prep_child_symbol prep_symbol.
      split_token dep3 [] ''A2'' 4 [2, 3, 4, 5] (''to'', 4) ss_liked = Inr ss' \<and>
      map_of (tok_ind_to_symbol (self ss')) (dep_id t_Mary) = Some prep_child_symbol \<and>
      map_of (tok_ind_to_symbol (self ss')) (4 + 1) = Some prep_symbol \<and>
      map_of (ret ss') prep_child_symbol = Some (dep_word t_Mary, [dep_id t_Mary - 1]) \<and>
      map_of (predicates (self ss')) prep_symbol =
        Some \<lparr>Bare_predicate = (''to'', [4]),
              Template = ''{'' @ ''A2'' @ ''} '' @ ''to'' @ '' {'' @ prep_child_symbol @ ''}'',
              Head = \<lparr>Surface = SurfaceStr ''to'', Lemma = ''to'', POS = ''IN''\<rparr>,
              Arguments = [''A2'', prep_child_symbol]\<rparr>)"
proof -
  have a: "py_index dep3 (4 + 1) = Inr t_to" by code_simp
  have b: "parent_relation t_to = ''prep''" by code_simp
  have c: "children t_to = [t_Mary]" by code_simp
  have d: "dep_id t_Mary - 1 \<in> set [2, 3, 4, 5]" by code_simp
  have e: "\<not> ((4::int) + 1 = 4 \<and> map_of (ret ss_liked) ''A2'' = None)" by simp
  have f: "pending_NE_root [] ss_liked 4 = None" by code_simp
  have g: "4 \<notin> set (all_NEs_token_indices [])" by code_simp
  from split_token_prep[OF a b c d e f g, of "''to''"] a b c d f g
  show ?thesis by simp
qed

text \<open>
  Claim C4 on ``men living in New York smiled''. After the predicates are parsed the
  entity \<open>A1\<close> is ``New York'', its head is token 5 and lies in the span that spaCy
  returns. \<^verbatim>\<open>_split_entities\<close> first replaces it by the named entity; then, in the span
  of the entity \<open>A2\<close> (``men living in New York''), the preposition \<open>in\<close> has the one
  child \<open>York\<close>, whose symbol is \<open>A1\<close>, and the record of \<open>A1\<close> is overwritten by the
  single word \<open>York\<close>. The result of the split and the final OKR hold the single word.
\<close>

theorem split_entities_named_entity_overridden:
  "(case parse_predicates rt0 cfg0 dep2 g2 init_internal_state of
      Inl e \<Rightarrow> False
    | Inr st \<Rightarrow>
        map_of (entities st) ''A1'' = Some (''New York'', [3, 4]) \<and>
        ent_symbol_to_head_ind st ''A1'' = Some 5 \<and>
        5 - 1 \<in> set (all_NEs_token_indices (get_named_entities ner2)) \<and>
        map_option NE_to_entity (tok_ind_to_NE (get_named_entities ner2) (5 - 1)) =
          Some (''New York'', [3, 4]) \<and>
        (case split_entities rt0 dep2 ner2 st of
           Inl e \<Rightarrow> False
         | Inr ss \<Rightarrow> map_of (ret ss) ''A1'' = Some (''York'', [4]))) \<and>
   (case parse rt0 cfg0 dep2 g2 ner2 of
      Inl e \<Rightarrow> False
    | Inr r \<Rightarrow> map_of (Entities r) ''A1'' = Some (''York'', [4]))"
  by code_simp

subsection \<open>The template of a predicate\<close>

lemma case_prod_eq_Inr:
  "((case p of (a, b) \<Rightarrow> f a b) = Inr y) \<longleftrightarrow> (\<exists>a b. p = (a, b) \<and> f a b = Inr y)"
  by (cases p) simp


lemma template_elements_sound:
  "template_elements k g ns st = Inr (elems, st') \<Longrightarrow>
   map_of (tok_ind_to_symbol st) \<subseteq>\<^sub>m map_of (tok_ind_to_symbol st') \<and>
   predicates st' = predicates st \<and> entities st' = entities st \<and>
   list_all2 (template_slot g st') ns elems"
proof (induction ns arbitrary: st elems)
  case Nil
  then show ?case by simp
next
  case (Cons n ns)
  from Cons.prems obtain i s st1 rest where
    i: "get_node_ind (Props (node_at g n)) = Inr i"
    and s: "get_element_symbol i k st = (s, st1)"
    and r: "template_elements k g ns st1 = Inr (rest, st')"
    and e: "elems = (i, placeholder s) # rest"
    by (auto simp: ebind_eq_Inr case_prod_eq_Inr)
  from Cons.IH[OF r] have
    le: "map_of (tok_ind_to_symbol st1) \<subseteq>\<^sub>m map_of (tok_ind_to_symbol st')"
    and keep: "predicates st' = predicates st1" "entities st' = entities st1"
    and all: "list_all2 (template_slot g st') ns rest" by simp_all
  have "map_of (tok_ind_to_symbol st') i = Some s"
    using get_element_symbol_bound[OF s] le by (rule map_leD[rotated])
  then have "template_slot g st' n (i, placeholder s)"
    by (simp add: template_slot_def i)
  moreover have "map_of (tok_ind_to_symbol st) \<subseteq>\<^sub>m map_of (tok_ind_to_symbol st')"
    using get_element_symbol_le[OF s] le by (rule map_le_trans)
  ultimately show ?case
    using all keep get_element_symbol_keeps[OF s] by (simp add: e)
qed





lemma parse_predicate_InrE:
  assumes "parse_predicate rt dep_tree g pns pn st = Inr st'"
  obtains dn bare pind psym st1 nbs pred_elems st2 ent_elems st3 eargs st4 pargs st5 where
    "isPredicate (node_at g pn)"
    "get_dep_node dep_tree (node_at g pn) = Inr dn"
    "get_mwp dep_tree g (node_at g pn) = Inr bare"
    "get_node_ind (Props (node_at g pn)) = Inr pind"
    "get_element_symbol pind Pred st = (psym, st1)"
    "get_props_neighbors (recursion_limit rt) rt g pn = Inr nbs"
    "template_elements Pred g (filter (\<lambda>node. node \<in> set pns) (node_set_iter rt nbs)) st1 =
       Inr (pred_elems, st2)"
    "template_elements Ent g
       (filter (\<lambda>node. node \<notin> set pns \<and> \<not> is_implicit (node_at g node)) (node_set_iter rt nbs)) st2 =
       Inr (ent_elems, st3)"
    "argument_symbols Ent g
       (filter (\<lambda>node. node \<notin> set pns \<and> \<not> is_implicit (node_at g node)) (node_set_iter rt nbs)) st3 =
       Inr (eargs, st4)"
    "argument_symbols Pred g (filter (\<lambda>node. node \<in> set pns) (node_set_iter rt nbs)) st4 =
       Inr (pargs, st5)"
    "efold (add_dep_entity rt g)
       (filter (\<lambda>node. node \<notin> set pns \<and> \<not> is_implicit (node_at g node)) (node_set_iter rt nbs))
       (st5\<lparr>predicates :=
          AList.update psym
            \<lparr>Bare_predicate = (join_sp (map dep_word (sort_key dep_id bare)),
                               map (\<lambda>node. dep_id node - 1) (sort_key dep_id bare)),
             Template = join_sp (map snd (sort_key fst
                          (map (\<lambda>node. (dep_id node, dep_word node)) bare @ pred_elems @ ent_elems))),
             Head = \<lparr>Surface = SurfaceTok (dep_word dn) [dep_id dn - 1],
                     Lemma = lemma_feature (node_at g pn), POS = pos dn\<rparr>,
             Arguments = eargs @ pargs\<rparr>
            (predicates st5)\<rparr>) = Inr st'"
  using assms unfolding parse_predicate_def
  by (auto simp: ebind_eq_Inr Let_def case_prod_eq_Inr split: if_splits)



subsection \<open>Strings and association lists\<close>

lemma str_nat_simp: "str_nat n = (if n < 10 then [digit_char n] else str_nat (n div 10) @ [digit_char (n mod 10)])"
  by (rule str_nat.simps)

declare str_nat.simps [simp del]

lemma str_nat_not_Nil: "str_nat n \<noteq> []"
  by (subst str_nat_simp) simp

lemma digit_char_inj: "a < 10 \<Longrightarrow> b < 10 \<Longrightarrow> digit_char a = digit_char b \<Longrightarrow> a = b"
proof -
  assume a: "a < 10" and b: "b < 10" and e: "digit_char a = digit_char b"
  from e have "(of_char (char_of (48 + a)) :: nat) = of_char (char_of (48 + b))"
    unfolding digit_char_def by (rule arg_cong)
  then have "(48 + a) mod 256 = (48 + b) mod 256"
    by (simp only: of_char_of)
  moreover have "(48 + a) mod 256 = 48 + a" using a by (intro mod_less) simp
  moreover have "(48 + b) mod 256 = 48 + b" using b by (intro mod_less) simp
  ultimately show "a = b" by simp
qed

lemma str_nat_inj: "str_nat m = str_nat n \<Longrightarrow> m = n"
proof (induction m arbitrary: n rule: str_nat.induct)
  case (1 m)
  show ?case
  proof (cases "m < 10")
    case True
    then have m: "str_nat m = [digit_char m]" by (subst str_nat_simp) simp
    show ?thesis
    proof (cases "n < 10")
      case True
      then have "str_nat n = [digit_char n]" by (subst str_nat_simp) simp
      with m "1.prems" \<open>m < 10\<close> True show ?thesis by (auto dest: digit_char_inj)
    next
      case False
      then have "str_nat n = str_nat (n div 10) @ [digit_char (n mod 10)]"
        by (subst str_nat_simp) simp
      with m "1.prems" have "str_nat (n div 10) = []" by simp
      with str_nat_not_Nil show ?thesis by blast
    qed
  next
    case False
    then have m: "str_nat m = str_nat (m div 10) @ [digit_char (m mod 10)]"
      by (subst str_nat_simp) simp
    show ?thesis
    proof (cases "n < 10")
      case True
      then have "str_nat n = [digit_char n]" by (subst str_nat_simp) simp
      with m "1.prems" have "str_nat (m div 10) = []" by simp
      with str_nat_not_Nil show ?thesis by blast
    next
      case nf: False
      then have "str_nat n = str_nat (n div 10) @ [digit_char (n mod 10)]"
        by (subst str_nat_simp) simp
      with m "1.prems" have a: "str_nat (m div 10) = str_nat (n div 10)"
        and b: "digit_char (m mod 10) = digit_char (n mod 10)" by simp_all
      from "1.IH"[OF False a] have "m div 10 = n div 10" .
      moreover from b have "m mod 10 = n mod 10" by (auto dest!: digit_char_inj[rotated 2])
      ultimately show ?thesis by (metis div_mult_mod_eq)
    qed
  qed
qed

lemma split_sp_no_space: "CHR '' '' \<notin> set w \<Longrightarrow> split_sp w = [w]"
  by (induction w) auto

lemma split_sp_append: "CHR '' '' \<notin> set w \<Longrightarrow> split_sp (w @ CHR '' '' # r) = w # split_sp r"
  by (induction w) auto

lemma split_join:
  "ws \<noteq> [] \<Longrightarrow> \<forall>w \<in> set ws. CHR '' '' \<notin> set w \<Longrightarrow> split_sp (join_sp ws) = ws"
proof (induction ws rule: join_sp.induct)
  case 1
  then show ?case by simp
next
  case (2 w)
  then show ?case by (simp add: split_sp_no_space)
next
  case (3 w v ws)
  then show ?case by (simp add: split_sp_append)
qed

lemma update_fresh: "map_of al k = None \<Longrightarrow> AList.update k v al = al @ [(k, v)]"
  by (induction al) (auto split: if_splits)

lemma set_update_subset: "set (AList.update k v al) \<subseteq> insert (k, v) (set al)"
  by (induction al) auto

lemma keys_update: "fst ` set (AList.update k v al) = insert k (fst ` set al)"
  using dom_update[of k v al] by (simp add: dom_map_of_conv_image_fst)

subsection \<open>The symbol table stays injective\<close>

lemma map_of_sym_ran: "map_of (tok_ind_to_symbol st) i = Some s \<Longrightarrow> s \<in> sym_ran st"
  by (force simp: sym_ran_def dest: map_of_SomeD)

lemma ran_sym_ran: "ran (map_of (tok_ind_to_symbol st)) \<subseteq> sym_ran st"
  by (auto simp: ran_def dest: map_of_sym_ran)

lemma get_element_symbol_ran:
  assumes "get_element_symbol i k st = (s, st')"
  shows "sym_ran st' = insert s (sym_ran st)"
  using assms
proof (cases rule: get_element_symbol_cases)
  case bound
  then show ?thesis by (auto dest: map_of_sym_ran)
next
  case fresh
  then show ?thesis by (auto simp: sym_ran_def update_fresh)
qed

lemma gensym_ent_symbol: "is_entity_symbol (fst (gensym Ent st))"
  by (simp add: gensym_def gensym_ent_def is_entity_symbol_def)

lemma gensym_pred_symbol: "\<not> is_entity_symbol (fst (gensym Pred st))"
  by (simp add: gensym_def gensym_pred_def is_entity_symbol_def)

lemma get_element_symbol_Pred_new:
  assumes "get_element_symbol i Pred st = (s, st')" and "is_entity_symbol s"
  shows "s \<in> sym_ran st"
  using assms by (cases rule: get_element_symbol_cases) (auto dest: map_of_sym_ran simp: gensym_pred_symbol)

lemma symbol_format_mono:
  "symbol_format st s \<Longrightarrow> ent_counter st \<le> ent_counter st' \<Longrightarrow>
   pred_counter st \<le> pred_counter st' \<Longrightarrow> symbol_format st' s"
  by (fastforce simp: symbol_format_def)

lemma gensym_fresh:
  "symbol_format st s \<Longrightarrow> s \<noteq> fst (gensym k st)"
  by (cases k) (auto simp: symbol_format_def gensym_def gensym_ent_def gensym_pred_def
                     dest!: str_nat_inj)

lemma gensym_format: "symbol_format (snd (gensym k st)) (fst (gensym k st))"
  by (cases k) (auto simp: symbol_format_def gensym_def gensym_ent_def gensym_pred_def)

lemma gensym_counters:
  "ent_counter st \<le> ent_counter (snd (gensym k st))"
  "pred_counter st \<le> pred_counter (snd (gensym k st))"
  by (cases k; simp add: gensym_def gensym_ent_def gensym_pred_def)+

lemma get_element_symbol_inv:
  assumes "get_element_symbol i k st = (s, st')" and "sym_inv st"
  shows "sym_inv st'"
  using assms(1)
proof (cases rule: get_element_symbol_cases)
  case bound
  with assms(2) show ?thesis by simp
next
  case fresh
  let ?g = "snd (gensym k st)"
  have set': "set (tok_ind_to_symbol st') = insert (i, s) (set (tok_ind_to_symbol st))"
    using fresh by (simp add: update_fresh)
  have cnt: "ent_counter st' = ent_counter ?g" "pred_counter st' = pred_counter ?g"
    using fresh by simp_all
  have fmt_old: "symbol_format st' s'" if "(j, s') \<in> set (tok_ind_to_symbol st)" for j s'
  proof -
    from assms(2) that have "symbol_format st s'" by (auto simp: sym_inv_def)
    then show ?thesis
      by (rule symbol_format_mono) (simp_all add: cnt gensym_counters)
  qed
  have fmt_new: "symbol_format st' s"
    using gensym_format[of k st] fresh(2) by (simp add: symbol_format_def cnt)
  have new_old: "s \<noteq> s'" if "(j, s') \<in> set (tok_ind_to_symbol st)" for j s'
  proof -
    from assms(2) that have "symbol_format st s'" by (auto simp: sym_inv_def)
    from gensym_fresh[OF this, of k] fresh(2) show ?thesis by simp
  qed
  have inj_old: "i' = j" if "(i', s') \<in> set (tok_ind_to_symbol st)"
    "(j, s') \<in> set (tok_ind_to_symbol st)" for i' j s'
    using assms(2) that by (auto simp: sym_inv_def)
  show ?thesis
    unfolding sym_inv_def set'
    using fmt_old fmt_new inj_old by (auto dest: new_old)
qed

subsection \<open>The predicate pass keeps its invariant\<close>

lemma efold_invariant:
  assumes "\<And>x s s'. x \<in> set xs \<Longrightarrow> I s \<Longrightarrow> f x s = Inr s' \<Longrightarrow> I s'"
    and "I s" and "efold f xs s = Inr t"
  shows "I t"
  using assms
proof (induction xs arbitrary: s)
  case Nil
  then show ?case by simp
next
  case (Cons y ys)
  from Cons.prems(3) obtain s' where s': "f y s = Inr s'" and r: "efold f ys s' = Inr t"
    by (auto simp: ebind_eq_Inr)
  have "I s'" using Cons.prems(1)[OF _ Cons.prems(2) s'] by simp
  with r Cons.IH Cons.prems(1) show ?case by auto
qed

lemma node_bound_mono:
  "map_of (tok_ind_to_symbol st) \<subseteq>\<^sub>m map_of (tok_ind_to_symbol st') \<Longrightarrow>
   node_bound g st n s \<Longrightarrow> node_bound g st' n s"
  by (auto simp: node_bound_def split: sum.splits dest: map_leD)

lemma node_bound_sym_ran: "node_bound g st n s \<Longrightarrow> s \<in> sym_ran st"
  by (auto simp: node_bound_def split: sum.splits dest: map_of_sym_ran)

lemma node_bound_get:
  assumes "node_bound g st n s"
  obtains i where "get_node_ind (Props (node_at g n)) = Inr i"
    and "get_element_symbol i k st = (s, st)"
  using assms
  by (auto simp: node_bound_def get_element_symbol_def split: sum.splits)

lemma get_element_symbol_uncovered:
  assumes "get_element_symbol i k st = (s, st')"
  shows "uncovered st' \<subseteq> insert s (uncovered st)"
  using get_element_symbol_ran[OF assms] get_element_symbol_keeps[OF assms]
  by (auto simp: uncovered_def)

lemma get_element_symbol_uncovered_Pred:
  assumes "get_element_symbol i Pred st = (s, st')"
  shows "uncovered st' \<subseteq> uncovered st"
  using get_element_symbol_ran[OF assms] get_element_symbol_keeps[OF assms]
    get_element_symbol_Pred_new[OF assms]
  by (auto simp: uncovered_def)

lemma template_elements_props:
  "template_elements k g ns st = Inr (elems, st') \<Longrightarrow>
   (sym_inv st \<longrightarrow> sym_inv st') \<and>
   (\<forall>n \<in> set ns. \<exists>s. node_bound g st' n s) \<and>
   uncovered st' \<subseteq> uncovered st \<union> (if k = Ent then {s. \<exists>n \<in> set ns. node_bound g st' n s} else {})"
proof (induction ns arbitrary: st elems)
  case Nil
  then show ?case by simp
next
  case (Cons n ns)
  from Cons.prems obtain i s st1 rest where
    i: "get_node_ind (Props (node_at g n)) = Inr i"
    and s: "get_element_symbol i k st = (s, st1)"
    and r: "template_elements k g ns st1 = Inr (rest, st')"
    by (auto simp: ebind_eq_Inr case_prod_eq_Inr)
  note IH = Cons.IH[OF r]
  have le: "map_of (tok_ind_to_symbol st1) \<subseteq>\<^sub>m map_of (tok_ind_to_symbol st')"
    using template_elements_sound[OF r] by simp
  have b: "node_bound g st' n s"
    using get_element_symbol_bound[OF s] le by (auto simp: node_bound_def i dest: map_leD)
  have u1: "uncovered st1 \<subseteq> insert s (uncovered st)"
    by (rule get_element_symbol_uncovered[OF s])
  have u1p: "k = Pred \<Longrightarrow> uncovered st1 \<subseteq> uncovered st"
    using get_element_symbol_uncovered_Pred s by blast
  have "sym_inv st \<longrightarrow> sym_inv st'"
    using IH get_element_symbol_inv[OF s] by blast
  moreover have "\<forall>m \<in> set (n # ns). \<exists>s. node_bound g st' m s"
    using IH b by auto
  moreover have "uncovered st' \<subseteq> uncovered st \<union>
      (if k = Ent then {s. \<exists>m \<in> set (n # ns). node_bound g st' m s} else {})"
  proof (cases k)
    case Ent
    with IH have "uncovered st' \<subseteq> uncovered st1 \<union> {s. \<exists>m \<in> set ns. node_bound g st' m s}" by simp
    with u1 b Ent show ?thesis by auto
  next
    case Pred
    with IH have "uncovered st' \<subseteq> uncovered st1" by simp
    with u1p Pred show ?thesis by auto
  qed
  ultimately show ?case by blast
qed

lemma argument_symbols_bound:
  "\<forall>n \<in> set ns. \<exists>s. node_bound g st n s \<Longrightarrow>
   argument_symbols k g ns st = Inr (syms, st') \<Longrightarrow> st' = st \<and> set syms \<subseteq> sym_ran st"
proof (induction ns arbitrary: syms)
  case Nil
  then show ?case by simp
next
  case (Cons n ns)
  from Cons.prems(1) obtain s where b: "node_bound g st n s" by auto
  then obtain i where i: "get_node_ind (Props (node_at g n)) = Inr i"
    and s: "get_element_symbol i k st = (s, st)" by (rule node_bound_get)
  from Cons.prems(2) i s obtain rest where
    r: "argument_symbols k g ns st = Inr (rest, st')" and e: "syms = s # rest"
    by (auto simp: ebind_eq_Inr case_prod_eq_Inr)
  from Cons.IH[OF _ r] Cons.prems(1) have "st' = st" "set rest \<subseteq> sym_ran st" by auto
  with e node_bound_sym_ran[OF b] show ?case by simp
qed

lemma sym_inv_cong:
  "tok_ind_to_symbol st' = tok_ind_to_symbol st \<Longrightarrow> ent_counter st' = ent_counter st \<Longrightarrow>
   pred_counter st' = pred_counter st \<Longrightarrow> sym_inv st' = sym_inv st"
  by (simp add: sym_inv_def symbol_format_def)

lemma efold_add_dep_entity_bound:
  "\<forall>n \<in> set ns. \<exists>s. node_bound g st n s \<Longrightarrow>
   efold (add_dep_entity rt g) ns st = Inr st' \<Longrightarrow>
   (\<exists>es. st' = st\<lparr>entities := es\<rparr> \<and>
         fst ` set es = fst ` set (entities st) \<union> {s. \<exists>n \<in> set ns. node_bound g st n s} \<and>
         set es \<subseteq> set (entities st) \<union>
                   {(s, e). \<exists>n. n \<in> set ns \<and> node_bound g st n s \<and>
                                e = node_entity rt (node_at g n)})"
proof (induction ns arbitrary: st)
  case Nil
  then show ?case by (intro exI[of _ "entities st"]) simp
next
  case (Cons n ns)
  from Cons.prems(1) obtain s where b: "node_bound g st n s" by auto
  then obtain i where i: "get_node_ind (Props (node_at g n)) = Inr i"
    and s: "get_element_symbol i Ent st = (s, st)" by (rule node_bound_get)
  have uniq: "t = s" if "node_bound g st n t" for t
    using that b by (auto simp: node_bound_def split: sum.splits)
  let ?st1 = "st\<lparr>entities := AList.update s (node_entity rt (node_at g n)) (entities st)\<rparr>"
  from Cons.prems(2) obtain st1 where a: "add_dep_entity rt g n st = Inr st1"
    and r1: "efold (add_dep_entity rt g) ns st1 = Inr st'"
    by (auto simp: ebind_eq_Inr)
  have "st1 = ?st1" using a i s by (simp add: add_dep_entity_def)
  with r1 have r: "efold (add_dep_entity rt g) ns ?st1 = Inr st'" by simp
  have nb: "node_bound g ?st1 m t = node_bound g st m t" for m t
    by (simp add: node_bound_def split: sum.splits)
  from Cons.prems(1) have "\<forall>n \<in> set ns. \<exists>s. node_bound g ?st1 n s" by (simp add: nb)
  from Cons.IH[OF this r] obtain es where
    st': "st' = ?st1\<lparr>entities := es\<rparr>"
    and keys: "fst ` set es = fst ` set (entities ?st1) \<union> {s. \<exists>n \<in> set ns. node_bound g ?st1 n s}"
    and items: "set es \<subseteq> set (entities ?st1) \<union>
                   {(s, e). \<exists>n. n \<in> set ns \<and> node_bound g ?st1 n s \<and>
                                e = node_entity rt (node_at g n)}"
    by blast
  have k1: "fst ` set (entities ?st1) = insert s (fst ` set (entities st))"
    by (simp add: keys_update)
  have i1: "set (entities ?st1) \<subseteq> insert (s, node_entity rt (node_at g n)) (set (entities st))"
    using set_update_subset[of s _ "entities st"] by simp
  have X: "{t. \<exists>m \<in> set (n # ns). node_bound g st m t} =
           insert s {t. \<exists>m \<in> set ns. node_bound g st m t}"
  proof (intro set_eqI iffI)
    fix t
    assume "t \<in> {t. \<exists>m \<in> set (n # ns). node_bound g st m t}"
    then obtain m where "m = n \<or> m \<in> set ns" and "node_bound g st m t" by auto
    then show "t \<in> insert s {t. \<exists>m \<in> set ns. node_bound g st m t}"
      using uniq[of t] by blast
  next
    fix t
    assume "t \<in> insert s {t. \<exists>m \<in> set ns. node_bound g st m t}"
    then show "t \<in> {t. \<exists>m \<in> set (n # ns). node_bound g st m t}"
      using b by auto
  qed
  have keys': "fst ` set es = insert s (fst ` set (entities st)) \<union>
                {t. \<exists>m \<in> set ns. node_bound g st m t}"
    using keys unfolding k1 nb .
  have items': "set es \<subseteq> set (entities ?st1) \<union>
                   {(s, e). \<exists>m. m \<in> set ns \<and> node_bound g st m s \<and>
                                e = node_entity rt (node_at g m)}"
    using items unfolding nb .
  have "(s, node_entity rt (node_at g n)) \<in>
          {(s, e). \<exists>m. m \<in> set (n # ns) \<and> node_bound g st m s \<and>
                       e = node_entity rt (node_at g m)}"
    using b by auto
  with i1 have i2: "set (entities ?st1) \<subseteq> set (entities st) \<union>
          {(s, e). \<exists>m. m \<in> set (n # ns) \<and> node_bound g st m s \<and>
                       e = node_entity rt (node_at g m)}"
    by blast
  have mono: "{(s, e). \<exists>m. m \<in> set ns \<and> node_bound g st m s \<and>
                       e = node_entity rt (node_at g m)} \<subseteq>
              {(s, e). \<exists>m. m \<in> set (n # ns) \<and> node_bound g st m s \<and>
                       e = node_entity rt (node_at g m)}"
    by auto
  have "st' = st\<lparr>entities := es\<rparr>" using st' by simp
  moreover have "fst ` set es = fst ` set (entities st) \<union> {s. \<exists>m \<in> set (n # ns). node_bound g st m s}"
    unfolding X keys' by blast
  moreover have "set es \<subseteq> set (entities st) \<union>
                   {(s, e). \<exists>m. m \<in> set (n # ns) \<and> node_bound g st m s \<and>
                                e = node_entity rt (node_at g m)}"
    using items' i2 mono by blast
  ultimately show ?case by blast
qed

lemma map_le_sym_ran:
  "map_of (tok_ind_to_symbol st) \<subseteq>\<^sub>m map_of (tok_ind_to_symbol st') \<Longrightarrow>
   ran (map_of (tok_ind_to_symbol st)) \<subseteq> sym_ran st'"
  by (auto simp: ran_def dest: map_leD map_of_sym_ran)

lemma args_boundD:
  "args_bound st \<Longrightarrow> (p, r) \<in> set (predicates st) \<Longrightarrow> set (Arguments r) \<subseteq> sym_ran st"
  by (force simp: args_bound_def)

lemma args_boundI:
  "(\<And>p r. (p, r) \<in> set (predicates st) \<Longrightarrow> set (Arguments r) \<subseteq> sym_ran st) \<Longrightarrow>
   args_bound st"
  unfolding args_bound_def by (metis prod.collapse)

lemma ents_from_nodesD:
  "ents_from_nodes rt g st \<Longrightarrow> (s, e) \<in> set (entities st) \<Longrightarrow>
   \<exists>a. \<not> is_implicit (node_at g a) \<and> node_bound g st a s \<and>
       e = node_entity rt (node_at g a)"
  by (force simp: ents_from_nodes_def)

lemma ents_from_nodesI:
  "(\<And>s e. (s, e) \<in> set (entities st) \<Longrightarrow>
      \<exists>a. \<not> is_implicit (node_at g a) \<and> node_bound g st a s \<and>
          e = node_entity rt (node_at g a)) \<Longrightarrow>
   ents_from_nodes rt g st"
  unfolding ents_from_nodes_def by (metis prod.collapse)

lemma template_elements_ran:
  "template_elements k g ns st = Inr (elems, st') \<Longrightarrow> sym_ran st \<subseteq> sym_ran st'"
proof (induction ns arbitrary: st elems)
  case Nil
  then show ?case by simp
next
  case (Cons n ns)
  from Cons.prems obtain i s st1 rest where
    s: "get_element_symbol i k st = (s, st1)"
    and r: "template_elements k g ns st1 = Inr (rest, st')"
    by (auto simp: ebind_eq_Inr case_prod_eq_Inr)
  from Cons.IH[OF r] get_element_symbol_ran[OF s] show ?case by blast
qed

lemma parse_predicate_inv:
  assumes "parse_predicate rt dep_tree g pns pn st = Inr st'" and "pass_inv rt g st"
  shows "pass_inv rt g st'"
proof -
  let ?preds = "filter (\<lambda>node. node \<in> set pns)"
  let ?ents = "filter (\<lambda>node. node \<notin> set pns \<and> \<not> is_implicit (node_at g node))"
  from assms(1) obtain dn bare pind psym st1 nbs pred_elems st2 ent_elems st3 eargs st4 pargs st5
    where psym: "get_element_symbol pind Pred st = (psym, st1)"
      and te1: "template_elements Pred g (?preds (node_set_iter rt nbs)) st1 = Inr (pred_elems, st2)"
      and te2: "template_elements Ent g (?ents (node_set_iter rt nbs)) st2 = Inr (ent_elems, st3)"
      and as1: "argument_symbols Ent g (?ents (node_set_iter rt nbs)) st3 = Inr (eargs, st4)"
      and as2: "argument_symbols Pred g (?preds (node_set_iter rt nbs)) st4 = Inr (pargs, st5)"
      and fin: "efold (add_dep_entity rt g) (?ents (node_set_iter rt nbs))
         (st5\<lparr>predicates :=
            AList.update psym
              \<lparr>Bare_predicate = (join_sp (map dep_word (sort_key dep_id bare)),
                                 map (\<lambda>node. dep_id node - 1) (sort_key dep_id bare)),
               Template = join_sp (map snd (sort_key fst
                            (map (\<lambda>node. (dep_id node, dep_word node)) bare @ pred_elems @ ent_elems))),
               Head = \<lparr>Surface = SurfaceTok (dep_word dn) [dep_id dn - 1],
                       Lemma = lemma_feature (node_at g pn), POS = pos dn\<rparr>,
               Arguments = eargs @ pargs\<rparr>
              (predicates st5)\<rparr>) = Inr st'"
    by (rule parse_predicate_InrE)
  let ?rec = "\<lparr>Bare_predicate = (join_sp (map dep_word (sort_key dep_id bare)),
                                 map (\<lambda>node. dep_id node - 1) (sort_key dep_id bare)),
               Template = join_sp (map snd (sort_key fst
                            (map (\<lambda>node. (dep_id node, dep_word node)) bare @ pred_elems @ ent_elems))),
               Head = \<lparr>Surface = SurfaceTok (dep_word dn) [dep_id dn - 1],
                       Lemma = lemma_feature (node_at g pn), POS = pos dn\<rparr>,
               Arguments = eargs @ pargs\<rparr>"
  from assms(2) have inv: "sym_inv st" and ab: "args_bound st" and un: "uncovered st = {}"
    and efn: "ents_from_nodes rt g st" by (simp_all add: pass_inv_def)
  note k0 = get_element_symbol_keeps[OF psym]
  note s1 = template_elements_sound[OF te1] and p1 = template_elements_props[OF te1]
  note s2 = template_elements_sound[OF te2] and p2 = template_elements_props[OF te2]
  have le01: "map_of (tok_ind_to_symbol st) \<subseteq>\<^sub>m map_of (tok_ind_to_symbol st1)"
    by (rule get_element_symbol_le[OF psym])
  have le12: "map_of (tok_ind_to_symbol st1) \<subseteq>\<^sub>m map_of (tok_ind_to_symbol st2)" using s1 by simp
  have le23: "map_of (tok_ind_to_symbol st2) \<subseteq>\<^sub>m map_of (tok_ind_to_symbol st3)" using s2 by simp
  have le03: "map_of (tok_ind_to_symbol st) \<subseteq>\<^sub>m map_of (tok_ind_to_symbol st3)"
    using le01 le12 le23 by (blast intro: map_le_trans)
  have inv3: "sym_inv st3"
    using get_element_symbol_inv[OF psym inv] p1 p2 by blast
  have un1: "uncovered st1 = {}" using get_element_symbol_uncovered_Pred[OF psym] un by blast
  have un2: "uncovered st2 = {}" using p1 un1 by auto
  let ?X = "{s. \<exists>n \<in> set (?ents (node_set_iter rt nbs)). node_bound g st3 n s}"
  have un3: "uncovered st3 \<subseteq> ?X" using p2 un2 by auto
  have b_ents: "\<forall>n \<in> set (?ents (node_set_iter rt nbs)). \<exists>s. node_bound g st3 n s"
    using p2 by blast
  have b_preds: "\<forall>n \<in> set (?preds (node_set_iter rt nbs)). \<exists>s. node_bound g st3 n s"
  proof
    fix n assume "n \<in> set (?preds (node_set_iter rt nbs))"
    with p1 obtain s where "node_bound g st2 n s" by blast
    then show "\<exists>s. node_bound g st3 n s" using node_bound_mono[OF le23] by blast
  qed
  from argument_symbols_bound[OF b_ents as1] have st4: "st4 = st3" and ea: "set eargs \<subseteq> sym_ran st3"
    by simp_all
  from argument_symbols_bound[OF b_preds as2[unfolded st4]] have st5: "st5 = st3"
    and pa: "set pargs \<subseteq> sym_ran st3" by simp_all
  let ?st6 = "st3\<lparr>predicates := AList.update psym ?rec (predicates st3)\<rparr>"
  have nb6: "node_bound g ?st6 = node_bound g st3"
    by (auto simp: node_bound_def fun_eq_iff split: sum.splits)
  from fin have fin': "efold (add_dep_entity rt g) (?ents (node_set_iter rt nbs)) ?st6 = Inr st'"
    by (simp add: st5)
  from efold_add_dep_entity_bound[OF _ fin'] b_ents obtain es where
    st': "st' = ?st6\<lparr>entities := es\<rparr>"
    and keys: "fst ` set es = fst ` set (entities ?st6) \<union> ?X"
    and items: "set es \<subseteq> set (entities ?st6) \<union>
                   {(s, e). \<exists>n. n \<in> set (?ents (node_set_iter rt nbs)) \<and> node_bound g st3 n s \<and>
                                e = node_entity rt (node_at g n)}"
    unfolding nb6 by blast
  have ran': "sym_ran st' = sym_ran st3" by (simp add: st' sym_ran_def)
  have ents3: "entities st3 = entities st" using s1 s2 k0 by simp
  have preds3: "predicates st3 = predicates st" using s1 s2 k0 by simp
  have ran03: "sym_ran st \<subseteq> sym_ran st3"
    using get_element_symbol_ran[OF psym] template_elements_ran[OF te1]
      template_elements_ran[OF te2] by blast
  have "sym_inv st' = sym_inv st3"
    by (rule sym_inv_cong) (simp_all add: st')
  with inv3 have "sym_inv st'" by simp
  have "args_bound st'"
  proof (rule args_boundI)
    fix p r assume "(p, r) \<in> set (predicates st')"
    then have "(p, r) = (psym, ?rec) \<or> (p, r) \<in> set (predicates st)"
      using set_update_subset[of psym ?rec "predicates st3"] by (auto simp: st' preds3)
    then show "set (Arguments r) \<subseteq> sym_ran st'"
    proof
      assume "(p, r) = (psym, ?rec)"
      then show ?thesis using ea pa by (auto simp: ran')
    next
      assume "(p, r) \<in> set (predicates st)"
      from args_boundD[OF ab this] ran03 show ?thesis by (auto simp: ran')
    qed
  qed
  have "uncovered st' = {}"
  proof -
    have ek: "fst ` set (entities st') = fst ` set (entities st3) \<union> ?X"
      using keys by (simp add: st')
    have "uncovered st' \<subseteq> uncovered st3 - ?X"
      unfolding uncovered_def ran' ek by blast
    with un3 show ?thesis by blast
  qed
  moreover have "ents_from_nodes rt g st'"
  proof (rule ents_from_nodesI)
    fix s e assume "(s, e) \<in> set (entities st')"
    then have "(s, e) \<in> set es" by (simp add: st')
    with items have "(s, e) \<in> set (entities st) \<or>
        (\<exists>n. n \<in> set (?ents (node_set_iter rt nbs)) \<and> node_bound g st3 n s \<and>
             e = node_entity rt (node_at g n))"
      by (auto simp: ents3)
    then have "(s, e) \<in> set (entities st) \<or>
        (\<exists>n. \<not> is_implicit (node_at g n) \<and> node_bound g st3 n s \<and>
             e = node_entity rt (node_at g n))"
      by auto
    then have "\<exists>a. \<not> is_implicit (node_at g a) \<and> node_bound g st3 a s \<and>
                  e = node_entity rt (node_at g a)"
      using ents_from_nodesD[OF efn] node_bound_mono[OF le03] by blast
    moreover have "node_bound g st' = node_bound g st3"
      by (auto simp: st' node_bound_def fun_eq_iff split: sum.splits)
    ultimately show "\<exists>a. \<not> is_implicit (node_at g a) \<and> node_bound g st' a s \<and>
                         e = node_entity rt (node_at g a)" by simp
  qed
  ultimately show ?thesis using \<open>sym_inv st'\<close> \<open>args_bound st'\<close> by (simp add: pass_inv_def)
qed

subsection \<open>The entity splitter keeps every entity symbol\<close>

lemma pass_inv_init: "pass_inv rt g init_internal_state"
  by (simp add: pass_inv_def sym_inv_def args_bound_def uncovered_def ents_from_nodes_def
      sym_ran_def init_internal_state_def)

lemma parse_predicates_inv:
  assumes "parse_predicates rt cfg dep_tree g st = Inr st'" and "pass_inv rt g st"
  shows "pass_inv rt g st'"
  using assms(1) unfolding parse_predicates_def Let_def
  by (rule efold_invariant[rotated 2]) (auto intro: parse_predicate_inv assms(2))

lemma ent_symbol_to_head_ind_bound:
  assumes "sym_inv st" and "map_of (tok_ind_to_symbol st) i = Some s"
  shows "ent_symbol_to_head_ind st s = Some i"
proof -
  let ?inv = "rev (map (\<lambda>(k, v). (v, k)) (tok_ind_to_symbol st))"
  from assms(2) have m: "(i, s) \<in> set (tok_ind_to_symbol st)" by (rule map_of_SomeD)
  then have "(s, i) \<in> set ?inv" by force
  then have "s \<in> fst ` set ?inv" by force
  then obtain j where j: "map_of ?inv s = Some j"
    by (cases "map_of ?inv s") (auto simp: map_of_eq_None_iff)
  then have "(s, j) \<in> set ?inv" by (rule map_of_SomeD)
  then have "(j, s) \<in> set (tok_ind_to_symbol st)" by auto
  with m assms(1) have "j = i" by (auto simp: sym_inv_def)
  with j show ?thesis by (simp add: ent_symbol_to_head_ind_def)
qed

lemma ent_symbol_to_head_ind_ran:
  assumes "ent_symbol_to_head_ind st s = Some i"
  shows "s \<in> sym_ran st"
proof -
  from assms have "(s, i) \<in> set (rev (map (\<lambda>(k, v). (v, k)) (tok_ind_to_symbol st)))"
    unfolding ent_symbol_to_head_ind_def by (rule map_of_SomeD)
  then have "(i, s) \<in> set (tok_ind_to_symbol st)" by auto
  then show ?thesis by (force simp: sym_ran_def)
qed

lemma get_node_ind_in_text:
  assumes "get_node_ind (Props n) = Inr i" and "node_text n \<noteq> []"
  shows "i \<in> index ` set (node_text n)"
proof -
  let ?xs = "map index (node_text n)"
  have ne: "?xs \<noteq> []" using assms(2) by simp
  have "i = Min (set ?xs) \<or> i = Max (set ?xs)"
    using assms(1) py_min_eq[OF ne] py_max_eq[OF ne]
    by (auto simp: get_node_ind_def split: if_splits)
  moreover have "Min (set ?xs) \<in> set ?xs" using ne by (intro Min_in) simp_all
  moreover have "Max (set ?xs) \<in> set ?xs" using ne by (intro Max_in) simp_all
  ultimately show ?thesis by auto
qed

lemma node_entity_head:
  assumes "wf_node n" and "get_node_ind (Props n) = Inr i"
    and "\<forall>xs. set (word_set_iter rt xs) = set xs"
  shows "\<exists>w. (w, i - 1) \<in> set (zip (split_sp (fst (node_entity rt n))) (snd (node_entity rt n)))"
proof -
  let ?srt = "sort_key index (word_set_iter rt (node_str n))"
  have set_srt: "set ?srt = set (node_str n)" using assms(3) by simp
  from assms(1) have "node_text n \<noteq> []" by (simp add: wf_node_def)
  from get_node_ind_in_text[OF assms(2) this] assms(1)
  obtain t where t: "t \<in> set (node_str n)" and it: "index t = i"
    by (auto simp: wf_node_def)
  then have "t \<in> set ?srt" using set_srt by simp
  then have "?srt \<noteq> []" by (metis empty_iff list.set(1))
  then have ne: "map word ?srt \<noteq> []" by simp
  have "\<forall>w \<in> set (map word ?srt). CHR '' '' \<notin> set w"
    using assms(1) set_srt by (auto simp: wf_node_def)
  from split_join[OF ne this]
  have "zip (split_sp (fst (node_entity rt n))) (snd (node_entity rt n)) =
        zip (map word ?srt) (map (\<lambda>w. index w - 1) ?srt)"
    by (simp add: node_entity_def Let_def)
  also have "\<dots> = map (\<lambda>w. (word w, index w - 1)) ?srt"
    by (simp add: zip_map_map zip_same_conv_map)
  finally have "(word t, i - 1) \<in>
      set (zip (split_sp (fst (node_entity rt n))) (snd (node_entity rt n)))"
    using t it set_srt by force
  then show ?thesis by blast
qed

lemma split_token_cases:
  assumes "split_token dep_tree nes hs h idxs (w, ind) ss = Inr ss'"
  obtains (head) "ss' = ss\<lparr>ret := AList.update hs (w, [ind]) (ret ss)\<rparr>"
  | (ne_root) ne s st' where "get_element_symbol (ind + 1) Ent (self ss) = (s, st')"
      and "ss' = ss\<lparr>ret := AList.update s (NE_to_entity ne) (ret ss),
                     NEs_to_insert := removeAll ne (NEs_to_insert ss), self := st'\<rparr>"
  | (skip) "ss' = ss"
  | (prep) e cs st1 ps st2 r where "get_element_symbol (dep_id e) Ent (self ss) = (cs, st1)"
      and "get_element_symbol (ind + 1) Pred st1 = (ps, st2)"
      and "ss' = ss\<lparr>ret := AList.update cs (dep_word e, [dep_id e - 1]) (ret ss),
                     self := st2\<lparr>predicates := AList.update ps r (predicates st2)\<rparr>\<rparr>"
      and "Arguments r = [hs, cs]"
  | (default) ns st1 r where "get_element_symbol (ind + 1) Ent (self ss) = (ns, st1)"
      and "ss' = ss\<lparr>ret := AList.update ns (w, [ind]) (ret ss),
                     self := (snd (gensym_pred st1))\<lparr>predicates :=
                       AList.update (fst (gensym_pred st1)) r
                         (predicates (snd (gensym_pred st1)))\<rparr>\<rparr>"
      and "set (Arguments r) = {ns, hs}"
proof -
  from assms obtain d where d: "py_index dep_tree (ind + 1) = Inr d"
    by (auto simp: split_token_def ebind_eq_Inr)
  show thesis
  proof (cases "ind + 1 = h \<and> map_of (ret ss) hs = None")
    case True
    have "ss' = ss\<lparr>ret := AList.update hs (w, [ind]) (ret ss)\<rparr>"
      using assms by (auto simp: split_token_def True ebind_eq_Inr)
    then show ?thesis by (rule head)
  next
    case nh: False
    show ?thesis
    proof (cases "pending_NE_root nes ss ind")
      case (Some ne)
      let ?g = "get_element_symbol (ind + 1) Ent (self ss)"
      have "ss' = ss\<lparr>ret := AList.update (fst ?g) (NE_to_entity ne) (ret ss),
                     NEs_to_insert := removeAll ne (NEs_to_insert ss), self := snd ?g\<rparr>"
        using assms by (simp add: split_token_def d nh Some split_beta)
      then show ?thesis by (intro ne_root[of "fst ?g" "snd ?g" ne]) simp_all
    next
      case None
      show ?thesis
      proof (cases "ind \<in> set (all_NEs_token_indices nes)")
        case True
        have "ss' = ss" using assms by (simp add: split_token_def d nh None True)
        then show ?thesis by (rule skip)
      next
        case nne: False
        show ?thesis
        proof (cases "parent_relation d \<in> set [''det'']")
          case True
          have "ss' = ss" using assms
            by (simp only: split_token_def prod.case fst_conv snd_conv d ebind_Inr nh if_False None option.case
                  nne True if_True sum.inject)
          then show ?thesis by (rule skip)
        next
          case ndet: False
          show ?thesis
          proof (cases "parent_relation d \<in> set [''prep''] \<and> length (children d) = 1 \<and>
                        dep_id (children d ! 0) - 1 \<in> set idxs")
            case True
            let ?c = "children d ! 0"
            let ?g1 = "get_element_symbol (dep_id ?c) Ent (self ss)"
            let ?g2 = "get_element_symbol (ind + 1) Pred (snd ?g1)"
            let ?r = "\<lparr>Bare_predicate = (w, [ind]),
                      Template = placeholder hs @ '' '' @ w @ '' '' @ placeholder (fst ?g1),
                      Head = \<lparr>Surface = SurfaceStr w, Lemma = w, POS = ''IN''\<rparr>,
                      Arguments = [hs, fst ?g1]\<rparr>"
            have "ss' = ss\<lparr>ret := AList.update (fst ?g1) (dep_word ?c, [dep_id ?c - 1]) (ret ss),
                     self := (snd ?g2)\<lparr>predicates := AList.update (fst ?g2) ?r (predicates (snd ?g2))\<rparr>\<rparr>"
              using True assms
              by (simp only: split_token_def prod.case fst_conv snd_conv d ebind_Inr nh if_False None option.case
                    nne ndet Let_def split_beta) simp
            then show ?thesis
              by (intro prep[of ?c "fst ?g1" "snd ?g1" "fst ?g2" "snd ?g2" ?r]) simp_all
          next
            case nprep: False
            let ?b = "if parent_relation d = ''pobj''
                 then (case parent d of None \<Rightarrow> Inl AttributeError
                       | Some p \<Rightarrow> Inr (dep_id p - 1 \<in> set idxs))
                 else Inr False"
            let ?g = "get_element_symbol (ind + 1) Ent (self ss)"
            let ?r = "create_implicit_proposition
                        (map fst (sort_key snd [(fst ?g, ind + 1), (hs, h)]))"
            let ?p = "gensym_pred (snd ?g)"
            have r: "ebind ?b (\<lambda>pobj_in_span.
                 if pobj_in_span then Inr ss
                 else Inr (ss\<lparr>ret := AList.update (fst ?g) (w, [ind]) (ret ss),
                             self := (snd ?p)\<lparr>predicates :=
                               AList.update (fst ?p) ?r (predicates (snd ?p))\<rparr>\<rparr>)) = Inr ss'"
              using assms
              by (simp only: split_token_def prod.case fst_conv snd_conv d ebind_Inr nh if_False None option.case
                    nne ndet nprep Let_def split_beta)
            let ?new = "ss\<lparr>ret := AList.update (fst ?g) (w, [ind]) (ret ss),
                             self := (snd ?p)\<lparr>predicates :=
                               AList.update (fst ?p) ?r (predicates (snd ?p))\<rparr>\<rparr>"
            show ?thesis
            proof (cases ?b)
              case (Inl e)
              with r show ?thesis by (simp only: ebind_Inl) simp
            next
              case (Inr b)
              from r have r': "(if b then Inr ss else Inr ?new) = (Inr ss' :: error + split_state)"
                unfolding Inr ebind_Inr .
              show ?thesis
              proof (cases b)
                case True
                with r' show ?thesis by (intro skip) simp
              next
                case False
                have "set (Arguments ?r) = {fst ?g, hs}"
                  by (auto simp: create_implicit_proposition_def)
                moreover from False r' have "ss' = ?new" by (simp only: if_False sum.inject)
                ultimately show ?thesis
                  by (intro default[of "fst ?g" "snd ?g" ?r]) simp_all
              qed
            qed
          qed
        qed
      qed
    qed
  qed
qed

lemma args_bound_update:
  assumes "args_bound st" and "sym_ran st \<subseteq> sym_ran st'"
    and "set (predicates st') \<subseteq> insert (p, r) (set (predicates st))"
    and "set (Arguments r) \<subseteq> sym_ran st'"
  shows "args_bound st'"
proof (rule args_boundI)
  fix q x assume "(q, x) \<in> set (predicates st')"
  with assms(3) have "(q, x) = (p, r) \<or> (q, x) \<in> set (predicates st)" by auto
  then show "set (Arguments x) \<subseteq> sym_ran st'"
    using assms(2,4) args_boundD[OF assms(1)] by blast
qed

lemma args_bound_mono:
  assumes "args_bound st" and "sym_ran st \<subseteq> sym_ran st'" and "predicates st' = predicates st"
  shows "args_bound st'"
  using assms by (force simp: args_bound_def)

lemma split_invI:
  assumes "args_bound (self ss)"
    and "\<And>s. s \<in> sym_ran (self ss) \<Longrightarrow> is_entity_symbol s \<Longrightarrow> s \<in> fst ` set (ret ss) \<union> K"
  shows "split_inv K ss"
  using assms by (simp add: split_inv_def)

lemma split_invD:
  assumes "split_inv K ss"
  shows "args_bound (self ss)"
    and "s \<in> sym_ran (self ss) \<Longrightarrow> is_entity_symbol s \<Longrightarrow> s \<in> fst ` set (ret ss) \<union> K"
  using assms by (simp_all add: split_inv_def)

lemma split_token_mono:
  assumes "split_token dep_tree nes hs h idxs (w, ind) ss = Inr ss'"
  shows "sym_ran (self ss) \<subseteq> sym_ran (self ss')" and "fst ` set (ret ss) \<subseteq> fst ` set (ret ss')"
  using assms
  by (cases rule: split_token_cases;
      auto simp: keys_update sym_ran_def[of "_\<lparr>predicates := _\<rparr>"]
           dest!: get_element_symbol_ran simp: sym_ran_def[symmetric])+

lemma sym_ran_predicates_update:
  "sym_ran (st\<lparr>predicates := ps\<rparr>) = sym_ran st"
  by (simp add: sym_ran_def)

lemma sym_ran_gensym_pred: "sym_ran (snd (gensym_pred st)) = sym_ran st"
  by (simp add: sym_ran_def)

lemma split_inv_step:
  assumes inv: "split_inv K ss"
    and ab: "args_bound st'"
    and ran: "sym_ran st' \<subseteq> sym_ran (self ss) \<union> N \<union> {s. \<not> is_entity_symbol s}"
    and new: "N \<subseteq> fst ` set r'"
    and keys: "fst ` set (ret ss) \<subseteq> fst ` set r'"
    and ss': "self ss' = st'" "ret ss' = r'"
  shows "split_inv K ss'"
proof (rule split_invI)
  show "args_bound (self ss')" using ab ss' by simp
next
  fix s assume a: "s \<in> sym_ran (self ss')" and e: "is_entity_symbol s"
  from a ran e ss' have "s \<in> sym_ran (self ss) \<or> s \<in> N" by auto
  then show "s \<in> fst ` set (ret ss') \<union> K"
  proof
    assume "s \<in> sym_ran (self ss)"
    from split_invD(2)[OF inv this e] keys ss' show ?thesis by auto
  next
    assume "s \<in> N"
    with new ss' show ?thesis by auto
  qed
qed

lemma split_token_inv:
  assumes "split_token dep_tree nes hs h idxs (w, ind) ss = Inr ss'"
    and "split_inv K ss" and "hs \<in> sym_ran (self ss)"
  shows "split_inv K ss'"
  using assms(1)
proof (cases rule: split_token_cases)
  case head
  show ?thesis
  proof (rule split_inv_step[OF assms(2), of "self ss" "{}" "ret ss'"])
    show "args_bound (self ss)" by (rule split_invD(1)[OF assms(2)])
    show "sym_ran (self ss) \<subseteq> sym_ran (self ss) \<union> {} \<union> {s. \<not> is_entity_symbol s}" by blast
    show "{} \<subseteq> fst ` set (ret ss')" by blast
    show "fst ` set (ret ss) \<subseteq> fst ` set (ret ss')"
      unfolding head by (simp add: keys_update subset_insertI)
    show "self ss' = self ss" unfolding head by simp
    show "ret ss' = ret ss'" ..
  qed
next
  case (ne_root ne s st')
  note r = get_element_symbol_ran[OF ne_root(1)] and k = get_element_symbol_keeps[OF ne_root(1)]
  show ?thesis
  proof (rule split_inv_step[OF assms(2), of st' "{s}" "ret ss'"])
    show "args_bound st'"
      by (rule args_bound_mono[OF split_invD(1)[OF assms(2)]]) (simp_all add: r k subset_insertI)
    show "sym_ran st' \<subseteq> sym_ran (self ss) \<union> {s} \<union> {s. \<not> is_entity_symbol s}"
      unfolding r by blast
    show "{s} \<subseteq> fst ` set (ret ss')" unfolding ne_root(2) by (simp add: keys_update)
    show "fst ` set (ret ss) \<subseteq> fst ` set (ret ss')"
      unfolding ne_root(2) by (simp add: keys_update subset_insertI)
    show "self ss' = st'" unfolding ne_root(2) by simp
    show "ret ss' = ret ss'" ..
  qed
next
  case skip
  with assms(2) show ?thesis by simp
next
  case (prep e cs st1 ps st2 r)
  note r1 = get_element_symbol_ran[OF prep(1)] and k1 = get_element_symbol_keeps[OF prep(1)]
    and r2 = get_element_symbol_ran[OF prep(2)] and k2 = get_element_symbol_keeps[OF prep(2)]
    and n2 = get_element_symbol_Pred_new[OF prep(2)]
  let ?st = "st2\<lparr>predicates := AList.update ps r (predicates st2)\<rparr>"
  have ran: "sym_ran ?st = insert ps (insert cs (sym_ran (self ss)))"
    unfolding sym_ran_predicates_update r2 r1 ..
  have p: "predicates st2 = predicates (self ss)" using k1(1) k2(1) by simp
  show ?thesis
  proof (rule split_inv_step[OF assms(2), of ?st "{cs}" "ret ss'"])
    show "args_bound ?st"
    proof (rule args_bound_update[OF split_invD(1)[OF assms(2)], of _ ps r])
      show "sym_ran (self ss) \<subseteq> sym_ran ?st" unfolding ran by blast
      show "set (predicates ?st) \<subseteq> insert (ps, r) (set (predicates (self ss)))"
        using set_update_subset[of ps r "predicates st2"] unfolding p by simp
      show "set (Arguments r) \<subseteq> sym_ran ?st" unfolding ran prep(4) using assms(3) by simp
    qed
    show "sym_ran ?st \<subseteq> sym_ran (self ss) \<union> {cs} \<union> {s. \<not> is_entity_symbol s}"
    proof
      fix x assume "x \<in> sym_ran ?st"
      then have "x = ps \<or> x = cs \<or> x \<in> sym_ran (self ss)" unfolding ran by blast
      moreover have "is_entity_symbol ps \<Longrightarrow> ps \<in> insert cs (sym_ran (self ss))"
        using n2 unfolding r1 .
      ultimately show "x \<in> sym_ran (self ss) \<union> {cs} \<union> {s. \<not> is_entity_symbol s}" by blast
    qed
    show "{cs} \<subseteq> fst ` set (ret ss')" unfolding prep(3) by (simp add: keys_update)
    show "fst ` set (ret ss) \<subseteq> fst ` set (ret ss')"
      unfolding prep(3) by (simp add: keys_update subset_insertI)
    show "self ss' = ?st" unfolding prep(3) by simp
    show "ret ss' = ret ss'" ..
  qed
next
  case (default ns st1 r)
  note r1 = get_element_symbol_ran[OF default(1)] and k1 = get_element_symbol_keeps[OF default(1)]
  let ?g = "snd (gensym_pred st1)"
  let ?p = "fst (gensym_pred st1)"
  let ?st = "?g\<lparr>predicates := AList.update ?p r (predicates ?g)\<rparr>"
  have ran: "sym_ran ?st = insert ns (sym_ran (self ss))"
    unfolding sym_ran_predicates_update sym_ran_gensym_pred r1 ..
  have p: "predicates ?g = predicates (self ss)" using k1(1) by simp
  show ?thesis
  proof (rule split_inv_step[OF assms(2), of ?st "{ns}" "ret ss'"])
    show "args_bound ?st"
    proof (rule args_bound_update[OF split_invD(1)[OF assms(2)], of _ ?p r])
      show "sym_ran (self ss) \<subseteq> sym_ran ?st" unfolding ran by blast
      show "set (predicates ?st) \<subseteq> insert (?p, r) (set (predicates (self ss)))"
        using set_update_subset[of ?p r "predicates ?g"] unfolding p by simp
      show "set (Arguments r) \<subseteq> sym_ran ?st" unfolding ran default(3) using assms(3) by simp
    qed
    show "sym_ran ?st \<subseteq> sym_ran (self ss) \<union> {ns} \<union> {s. \<not> is_entity_symbol s}"
      unfolding ran by blast
    show "{ns} \<subseteq> fst ` set (ret ss')" unfolding default(2) by (simp add: keys_update)
    show "fst ` set (ret ss) \<subseteq> fst ` set (ret ss')"
      unfolding default(2) by (simp add: keys_update subset_insertI)
    show "self ss' = ?st" unfolding default(2) by simp
    show "ret ss' = ret ss'" ..
  qed
qed

lemma split_token_head_gen:
  assumes "split_token dep_tree nes hs h idxs (w, ind) ss = Inr ss'" and "ind + 1 = h"
  shows "hs \<in> fst ` set (ret ss')"
proof (cases "map_of (ret ss) hs = None")
  case True
  with assms(2) have c: "ind + 1 = h \<and> map_of (ret ss) hs = None" by simp
  have "ss' = ss\<lparr>ret := AList.update hs (w, [ind]) (ret ss)\<rparr>"
    using assms(1) by (auto simp: split_token_def c ebind_eq_Inr)
  then show ?thesis by (simp add: keys_update)
next
  case False
  then have "hs \<in> fst ` set (ret ss)" by (simp add: map_of_eq_None_iff)
  with split_token_mono(2)[OF assms(1)] show ?thesis by blast
qed

lemma split_token_head:
  assumes "split_token dep_tree nes hs h idxs (w, h - 1) ss = Inr ss'"
  shows "hs \<in> fst ` set (ret ss')"
  by (rule split_token_head_gen[OF assms]) simp

lemma split_tokens_mono:
  "efold (split_token dep_tree nes hs h idxs) toks ss = Inr ss' \<Longrightarrow>
   sym_ran (self ss) \<subseteq> sym_ran (self ss') \<and> fst ` set (ret ss) \<subseteq> fst ` set (ret ss')"
proof (induction toks arbitrary: ss)
  case Nil
  then show ?case by simp
next
  case (Cons t toks)
  obtain w ind where t: "t = (w, ind)" by (cases t)
  from Cons.prems obtain ss1 where
    a: "split_token dep_tree nes hs h idxs (w, ind) ss = Inr ss1"
    and b: "efold (split_token dep_tree nes hs h idxs) toks ss1 = Inr ss'"
    unfolding t efold.simps ebind_eq_Inr by blast
  from Cons.IH[OF b] split_token_mono[OF a] show ?case by blast
qed

lemma split_tokens_inv:
  "efold (split_token dep_tree nes hs h idxs) toks ss = Inr ss' \<Longrightarrow>
   split_inv K ss \<Longrightarrow> hs \<in> sym_ran (self ss) \<Longrightarrow> split_inv K ss'"
proof (induction toks arbitrary: ss)
  case Nil
  then show ?case by simp
next
  case (Cons t toks)
  obtain w ind where t: "t = (w, ind)" by (cases t)
  from Cons.prems(1) obtain ss1 where
    a: "split_token dep_tree nes hs h idxs (w, ind) ss = Inr ss1"
    and b: "efold (split_token dep_tree nes hs h idxs) toks ss1 = Inr ss'"
    unfolding t efold.simps ebind_eq_Inr by blast
  have "split_inv K ss1" by (rule split_token_inv[OF a Cons.prems(2,3)])
  moreover have "hs \<in> sym_ran (self ss1)" using split_token_mono(1)[OF a] Cons.prems(3) by blast
  ultimately show ?case by (rule Cons.IH[OF b])
qed

lemma split_tokens_head:
  "efold (split_token dep_tree nes hs h idxs) toks ss = Inr ss' \<Longrightarrow>
   (w, h - 1) \<in> set toks \<Longrightarrow> hs \<in> fst ` set (ret ss')"
proof (induction toks arbitrary: ss)
  case Nil
  then show ?case by simp
next
  case (Cons t toks)
  obtain v ind where t: "t = (v, ind)" by (cases t)
  from Cons.prems(1) obtain ss1 where
    a: "split_token dep_tree nes hs h idxs (v, ind) ss = Inr ss1"
    and b: "efold (split_token dep_tree nes hs h idxs) toks ss1 = Inr ss'"
    unfolding t efold.simps ebind_eq_Inr by blast
  show ?case
  proof (cases "(w, h - 1) \<in> set toks")
    case True
    then show ?thesis by (rule Cons.IH[OF b])
  next
    case False
    with Cons.prems(2) t have i: "ind = h - 1" by simp
    have "hs \<in> fst ` set (ret ss1)" by (rule split_token_head[OF a[unfolded i]])
    with split_tokens_mono[OF b] show ?thesis by blast
  qed
qed

lemma split_inv_weaken: "split_inv K ss \<Longrightarrow> K \<subseteq> K' \<Longrightarrow> split_inv K' ss"
  by (auto simp: split_inv_def)

lemma split_entity_inv:
  assumes run: "split_entity dep_tree nes lk (hs, (str, idxs)) ss = Inr ss'"
    and sinv: "split_inv (insert hs K) ss" and hs: "hs \<in> sym_ran (self ss)"
    and h: "lk hs = Some h"
    and span: "h - 1 \<in> set (all_NEs_token_indices nes) \<or>
               (\<exists>w. (w, h - 1) \<in> set (zip (split_sp str) idxs))"
  shows "split_inv K ss'" and "sym_ran (self ss) \<subseteq> sym_ran (self ss')"
proof -
  let ?first = "if h - 1 \<in> set (all_NEs_token_indices nes)
                then (case tok_ind_to_NE nes (h - 1) of
                        None \<Rightarrow> Inl KeyError
                      | Some named_entity \<Rightarrow>
                          Inr (ss\<lparr>ret := AList.update hs (NE_to_entity named_entity) (ret ss),
                                  NEs_to_insert := removeAll named_entity (NEs_to_insert ss)\<rparr>))
                else Inr ss"
  from run obtain ss1 where
    f: "?first = Inr ss1"
    and t: "efold (split_token dep_tree nes hs h idxs) (zip (split_sp str) idxs) ss1 = Inr ss'"
    unfolding split_entity_def prod.case h option.case ebind_eq_Inr by blast
  have s1: "self ss1 = self ss" and k1: "fst ` set (ret ss) \<subseteq> fst ` set (ret ss1)"
    and n1: "h - 1 \<in> set (all_NEs_token_indices nes) \<Longrightarrow> hs \<in> fst ` set (ret ss1)"
    using f by (force simp: keys_update split: if_splits option.splits)+
  have inv1: "split_inv (insert hs K) ss1"
    by (rule split_inv_step[OF sinv split_invD(1)[OF sinv], of "{}" "ret ss1"])
       (use s1 k1 in auto)
  have hs1: "hs \<in> sym_ran (self ss1)" using hs s1 by simp
  have inv': "split_inv (insert hs K) ss'" by (rule split_tokens_inv[OF t inv1 hs1])
  have key: "hs \<in> fst ` set (ret ss')"
    using span
  proof
    assume "h - 1 \<in> set (all_NEs_token_indices nes)"
    from n1[OF this] split_tokens_mono[OF t] show ?thesis by blast
  next
    assume "\<exists>w. (w, h - 1) \<in> set (zip (split_sp str) idxs)"
    then obtain w where "(w, h - 1) \<in> set (zip (split_sp str) idxs)" ..
    then show ?thesis by (rule split_tokens_head[OF t])
  qed
  show "split_inv K ss'"
  proof (rule split_invI)
    show "args_bound (self ss')" by (rule split_invD(1)[OF inv'])
    fix s assume "s \<in> sym_ran (self ss')" "is_entity_symbol s"
    from split_invD(2)[OF inv' this] key show "s \<in> fst ` set (ret ss') \<union> K" by blast
  qed
  show "sym_ran (self ss) \<subseteq> sym_ran (self ss')"
    using split_tokens_mono[OF t] s1 by simp
qed

lemma split_entities_loop_inv:
  "efold (split_entity dep_tree nes lk) items ss = Inr ss' \<Longrightarrow>
   split_inv (fst ` set items) ss \<Longrightarrow>
   \<forall>item \<in> set items. item_ok nes lk st item \<Longrightarrow>
   sym_ran st \<subseteq> sym_ran (self ss) \<Longrightarrow>
   split_inv {} ss'"
proof (induction items arbitrary: ss)
  case Nil
  then show ?case by simp
next
  case (Cons item items)
  obtain hs str idxs where item: "item = (hs, (str, idxs))" by (cases item) auto
  from Cons.prems(1) obtain ss1 where
    a: "split_entity dep_tree nes lk (hs, (str, idxs)) ss = Inr ss1"
    and b: "efold (split_entity dep_tree nes lk) items ss1 = Inr ss'"
    unfolding item efold.simps ebind_eq_Inr by blast
  from Cons.prems(3) have "item_ok nes lk st (hs, (str, idxs))" by (simp add: item)
  then obtain h where hs: "hs \<in> sym_ran st" and h: "lk hs = Some h"
    and span: "h - 1 \<in> set (all_NEs_token_indices nes) \<or>
               (\<exists>w. (w, h - 1) \<in> set (zip (split_sp str) idxs))"
    by (auto simp: item_ok_def)
  have hs': "hs \<in> sym_ran (self ss)" using hs Cons.prems(4) by blast
  have inv0: "split_inv (insert hs (fst ` set items)) ss"
    using Cons.prems(2) by (simp add: item)
  note step = split_entity_inv[OF a inv0 hs' h span]
  show ?case
  proof (rule Cons.IH[OF b step(1)])
    show "\<forall>item \<in> set items. item_ok nes lk st item" using Cons.prems(3) by simp
    show "sym_ran st \<subseteq> sym_ran (self ss1)" using step(2) Cons.prems(4) by blast
  qed
qed

lemma pass_inv_item_ok:
  assumes "pass_inv rt g st"
    and "\<forall>a. \<not> is_implicit (node_at g a) \<longrightarrow> wf_node (node_at g a)"
    and "\<forall>xs. set (word_set_iter rt xs) = set xs"
    and "item \<in> set (entities st)"
  shows "item_ok nes (ent_symbol_to_head_ind st) st item"
proof -
  obtain s e where item: "item = (s, e)" by (cases item)
  from assms(1) have si: "sym_inv st" and efn: "ents_from_nodes rt g st"
    by (simp_all add: pass_inv_def)
  from ents_from_nodesD[OF efn assms(4)[unfolded item]] obtain a where
    ex: "\<not> is_implicit (node_at g a)"
    and b: "node_bound g st a s" and e: "e = node_entity rt (node_at g a)" by blast
  from b obtain i where i: "get_node_ind (Props (node_at g a)) = Inr i"
    and m: "map_of (tok_ind_to_symbol st) i = Some s"
    by (auto simp: node_bound_def split: sum.splits)
  have "ent_symbol_to_head_ind st s = Some i" by (rule ent_symbol_to_head_ind_bound[OF si m])
  moreover have "\<exists>w. (w, i - 1) \<in> set (zip (split_sp (fst e)) (snd e))"
    unfolding e using assms(2,3) i ex by (intro node_entity_head) auto
  moreover have "s \<in> sym_ran st" by (rule map_of_sym_ran[OF m])
  ultimately show ?thesis by (auto simp: item_ok_def item)
qed

lemma split_entities_inv:
  assumes run: "split_entities rt dep_tree doc_ents st = Inr ss"
    and pinv: "pass_inv rt g st"
    and wf: "\<forall>a. \<not> is_implicit (node_at g a) \<longrightarrow> wf_node (node_at g a)"
    and vr: "valid_runtime rt"
  shows "split_inv {} ss"
proof -
  let ?nes = "get_named_entities doc_ents"
  let ?items = "dict_iter rt (entities st)"
  let ?ss0 = "\<lparr>ret = [], NEs_to_insert = ?nes, self = st\<rparr>"
  from vr have "mset ?items = mset (entities st)" by (simp add: valid_runtime_def)
  then have it: "set ?items = set (entities st)" by (rule mset_eq_setD)
  from vr have ws: "\<forall>xs. set (word_set_iter rt xs) = set xs"
    by (simp add: valid_runtime_def)
  from run have r: "efold (split_entity dep_tree ?nes (ent_symbol_to_head_ind st)) ?items ?ss0 = Inr ss"
    by (simp add: split_entities_def Let_def)
  from pinv have ab: "args_bound st" and un: "uncovered st = {}" by (simp_all add: pass_inv_def)
  have inv0: "split_inv (fst ` set ?items) ?ss0"
  proof (rule split_invI)
    show "args_bound (self ?ss0)" using ab by simp
    fix s assume "s \<in> sym_ran (self ?ss0)" "is_entity_symbol s"
    with un have "s \<in> fst ` set (entities st)" by (auto simp: uncovered_def)
    then show "s \<in> fst ` set (ret ?ss0) \<union> fst ` set ?items" by (simp add: it)
  qed
  show ?thesis
  proof (rule split_entities_loop_inv[OF r inv0, of st])
    show "\<forall>item \<in> set ?items. item_ok ?nes (ent_symbol_to_head_ind st) st item"
      using pass_inv_item_ok[OF pinv wf ws] by (simp add: it)
    show "sym_ran st \<subseteq> sym_ran (self ?ss0)" by simp
  qed
qed

subsection \<open>The modifier linker keeps every entity symbol\<close>

lemma node_bound_cong:
  "tok_ind_to_symbol st' = tok_ind_to_symbol st \<Longrightarrow> node_bound g st' = node_bound g st"
  by (auto simp: node_bound_def fun_eq_iff split: sum.splits)

lemma add_props_node_to_entities_props:
  assumes "add_props_node_to_entities rt g node st = Inr st'"
  obtains s where "node_bound g st' node s"
    and "sym_ran st' = insert s (sym_ran st)"
    and "predicates st' = predicates st"
    and "fst ` set (entities st') = insert s (fst ` set (entities st))"
    and "map_of (tok_ind_to_symbol st) \<subseteq>\<^sub>m map_of (tok_ind_to_symbol st')"
proof -
  from assms obtain i where i: "get_node_ind (Props (node_at g node)) = Inr i"
    by (auto simp: add_props_node_to_entities_def ebind_eq_Inr)
  let ?g = "get_entity_symbol i st"
  obtain s st1 where g1: "get_element_symbol i Ent st = (s, st1)"
    by (cases "get_element_symbol i Ent st")
  have b1: "map_of (tok_ind_to_symbol st1) i = Some s" by (rule get_element_symbol_bound[OF g1])
  then have g2: "get_element_symbol i Ent st1 = (s, st1)"
    by (simp add: get_element_symbol_def)
  have st': "st' = st1\<lparr>entities := AList.update s (node_entity rt (node_at g node)) (entities st1)\<rparr>"
    using assms by (simp add: add_props_node_to_entities_def i get_entity_symbol_def g1 g2)
  note k = get_element_symbol_keeps[OF g1]
  show thesis
  proof (rule that[of s])
    show "node_bound g st' node s" using b1 by (simp add: node_bound_def i st')
    show "sym_ran st' = insert s (sym_ran st)"
      using get_element_symbol_ran[OF g1] by (simp add: st' sym_ran_def)
    show "predicates st' = predicates st" using k by (simp add: st')
    show "fst ` set (entities st') = insert s (fst ` set (entities st))"
      using k by (simp add: st' keys_update)
    show "map_of (tok_ind_to_symbol st) \<subseteq>\<^sub>m map_of (tok_ind_to_symbol st')"
      using get_element_symbol_le[OF g1] by (simp add: st')
  qed
qed

lemma add_modifier_InrE:
  assumes "add_modifier rt g ent modifier st = Inr st'"
  obtains ei mi st1 imp st2 syms st3 where
    "get_node_ind (Props (node_at g ent)) = Inr ei"
    "get_node_ind (Props (node_at g modifier)) = Inr mi"
    "add_props_node_to_entities rt g modifier st = Inr st1"
    "gensym_pred st1 = (imp, st2)"
    "argument_symbols Ent g (map fst (sort_key snd [(ent, ei), (modifier, mi)])) st2 =
       Inr (syms, st3)"
    "st' = st3\<lparr>predicates :=
             AList.update imp (create_implicit_proposition syms) (predicates st3)\<rparr>"
  using assms unfolding add_modifier_def
  by (auto simp: ebind_eq_Inr Let_def case_prod_eq_Inr simp del: sort_key_simps)

lemma add_modifier_inv:
  assumes run: "add_modifier rt g ent modifier st = Inr st'"
    and inv: "mod_inv st" and eb: "node_bound g st ent es"
  shows "mod_inv st'" and "node_bound g st' ent es"
proof -
  from run obtain ei mi st1 imp st2 syms st3 where
    ei: "get_node_ind (Props (node_at g ent)) = Inr ei"
    and mi: "get_node_ind (Props (node_at g modifier)) = Inr mi"
    and a: "add_props_node_to_entities rt g modifier st = Inr st1"
    and gp: "gensym_pred st1 = (imp, st2)"
    and args: "argument_symbols Ent g (map fst (sort_key snd [(ent, ei), (modifier, mi)])) st2 =
                 Inr (syms, st3)"
    and st': "st' = st3\<lparr>predicates :=
                AList.update imp (create_implicit_proposition syms) (predicates st3)\<rparr>"
    by (rule add_modifier_InrE)
  have nodes: "set (map fst (sort_key snd [(ent, ei), (modifier, mi)])) = {ent, modifier}"
    by auto
  have st2: "st2 = snd (gensym_pred st1)" and imp: "imp = fst (gensym_pred st1)"
    using gp by simp_all
  from a obtain ms where mb: "node_bound g st1 modifier ms"
    and ran1: "sym_ran st1 = insert ms (sym_ran st)"
    and p1: "predicates st1 = predicates st"
    and e1: "fst ` set (entities st1) = insert ms (fst ` set (entities st))"
    and le1: "map_of (tok_ind_to_symbol st) \<subseteq>\<^sub>m map_of (tok_ind_to_symbol st1)"
    by (rule add_props_node_to_entities_props)
  let ?st2 = "snd (gensym_pred st1)"
  have nb2: "node_bound g ?st2 = node_bound g st1" by (rule node_bound_cong) simp
  have eb1: "node_bound g st1 ent es" by (rule node_bound_mono[OF le1 eb])
  have "\<forall>n \<in> set (map fst (sort_key snd [(ent, ei), (modifier, mi)])). \<exists>s. node_bound g ?st2 n s"
    unfolding nodes nb2 using eb1 mb by blast
  from argument_symbols_bound[OF this args[unfolded st2]] have st3: "st3 = ?st2"
    and syms: "set syms \<subseteq> sym_ran ?st2" by simp_all
  have ran': "sym_ran st' = insert ms (sym_ran st)"
    by (simp add: st' st3 sym_ran_predicates_update sym_ran_gensym_pred ran1)
  have ents': "fst ` set (entities st') = insert ms (fst ` set (entities st))"
    by (simp add: st' st3 e1)
  have "args_bound st'"
  proof (rule args_bound_update[of st _ imp "create_implicit_proposition syms"])
    show "args_bound st" using inv by (simp add: mod_inv_def)
    show "sym_ran st \<subseteq> sym_ran st'" unfolding ran' by blast
    show "set (predicates st') \<subseteq>
          insert (imp, create_implicit_proposition syms) (set (predicates st))"
      using set_update_subset[of imp "create_implicit_proposition syms" "predicates st"]
      by (simp add: st' st3 p1)
    show "set (Arguments (create_implicit_proposition syms)) \<subseteq> sym_ran st'"
      using syms by (simp add: create_implicit_proposition_def ran' sym_ran_gensym_pred ran1)
  qed
  moreover have "uncovered st' = {}"
  proof -
    from inv have "uncovered st = {}" by (simp add: mod_inv_def)
    then show ?thesis unfolding uncovered_def ran' ents' by blast
  qed
  ultimately show "mod_inv st'" by (simp add: mod_inv_def)
  have "node_bound g st' = node_bound g st1"
    by (rule node_bound_cong) (simp add: st' st3)
  with eb1 show "node_bound g st' ent es" by simp
qed

lemma add_modifiers_loop_inv:
  "efold (add_modifier rt g ent) mods st = Inr st' \<Longrightarrow> mod_inv st \<Longrightarrow>
   node_bound g st ent es \<Longrightarrow> mod_inv st'"
proof (induction mods arbitrary: st)
  case Nil
  then show ?case by simp
next
  case (Cons m mods)
  from Cons.prems(1) obtain st1 where
    a: "add_modifier rt g ent m st = Inr st1"
    and b: "efold (add_modifier rt g ent) mods st1 = Inr st'"
    unfolding efold.simps ebind_eq_Inr by blast
  from add_modifier_inv[OF a Cons.prems(2,3)] Cons.IH[OF b] show ?case by blast
qed

lemma add_modifiers_of_inv:
  assumes "add_modifiers_of rt g nes ent st = Inr st'" and "mod_inv st"
  shows "mod_inv st'"
proof -
  from assms(1) obtain ind where i: "get_node_ind (Props (node_at g ent)) = Inr ind"
    by (auto simp: add_modifiers_of_def ebind_eq_Inr)
  show ?thesis
  proof (cases "map_of (tok_ind_to_symbol st) ind")
    case None
    with assms show ?thesis by (simp add: add_modifiers_of_def i)
  next
    case (Some s)
    then have g: "get_entity_symbol ind st = (s, st)"
      by (simp add: get_entity_symbol_def get_element_symbol_def)
    have eb: "node_bound g st ent s" by (simp add: node_bound_def i Some)
    show ?thesis
    proof (cases "map_of (entities st) s")
      case None
      with assms Some g show ?thesis by (simp add: add_modifiers_of_def i)
    next
      case (Some e)
      with assms(1) \<open>map_of (tok_ind_to_symbol st) ind = Some s\<close> g obtain mods where
        "efold (add_modifier rt g ent) mods st = Inr st'"
        by (auto simp: add_modifiers_of_def i ebind_eq_Inr)
      then show ?thesis using assms(2) eb by (rule add_modifiers_loop_inv)
    qed
  qed
qed

lemma add_modifiers_as_implicits_inv:
  assumes "add_modifiers_as_implicits rt g nes st = Inr st'" and "mod_inv st"
  shows "mod_inv st'"
  using assms(1) unfolding add_modifiers_as_implicits_def
  by (rule efold_invariant[rotated 2]) (auto intro: add_modifiers_of_inv assms(2))

subsection \<open>No dangling entity symbol\<close>

lemma parse_InrE:
  assumes "parse rt cfg dep_tree g doc_ents = Inr r"
  obtains st1 ss st where
    "parse_predicates rt cfg dep_tree g init_internal_state = Inr st1"
    "split_entities rt dep_tree doc_ents st1 = Inr ss"
    "add_modifiers_as_implicits rt g (get_named_entities doc_ents)
       ((self ss)\<lparr>entities := ret ss\<rparr>) = Inr st"
    "Entities r = entities st" "Predicates r = predicates st"
  using assms unfolding parse_def parse_okr_def
  by (auto simp: ebind_eq_Inr)

text \<open>
  Claim C1. Let the runtime enumerate what it is given, and let every node of the graph
  that is not implicit be well formed. When the parse returns an OKR, every entity symbol in the arguments of
  a record of its \<open>Predicates\<close> is a key of its \<open>Entities\<close>, whatever the three flags
  and the named entities are.
\<close>

theorem parse_arguments_in_entities:
  assumes "valid_runtime rt"
    and "\<forall>a. \<not> is_implicit (node_at g a) \<longrightarrow> wf_node (node_at g a)"
    and "parse rt cfg dep_tree g doc_ents = Inr r"
    and "map_of (Predicates r) p = Some rec" and "s \<in> set (Arguments rec)"
    and "is_entity_symbol s"
  shows "map_of (Entities r) s \<noteq> None"
proof -
  from assms(3) obtain st1 ss st where
    p1: "parse_predicates rt cfg dep_tree g init_internal_state = Inr st1"
    and p2: "split_entities rt dep_tree doc_ents st1 = Inr ss"
    and p3: "add_modifiers_as_implicits rt g (get_named_entities doc_ents)
       ((self ss)\<lparr>entities := ret ss\<rparr>) = Inr st"
    and e: "Entities r = entities st" and p: "Predicates r = predicates st"
    by (rule parse_InrE)
  let ?st2 = "(self ss)\<lparr>entities := ret ss\<rparr>"
  have i1: "pass_inv rt g st1" by (rule parse_predicates_inv[OF p1 pass_inv_init])
  have i2: "split_inv {} ss" by (rule split_entities_inv[OF p2 i1 assms(2,1)])
  have "args_bound ?st2"
    by (rule args_bound_mono[OF split_invD(1)[OF i2]]) (simp_all add: sym_ran_def)
  moreover have "uncovered ?st2 = {}"
    using split_invD(2)[OF i2] by (auto simp: uncovered_def sym_ran_def)
  ultimately have "mod_inv ?st2" by (simp add: mod_inv_def)
  with p3 have i3: "mod_inv st" by (rule add_modifiers_as_implicits_inv)
  from assms(4) have "(p, rec) \<in> set (predicates st)" unfolding p by (rule map_of_SomeD)
  with i3 assms(5) have "s \<in> sym_ran st" by (auto simp: mod_inv_def dest: args_boundD)
  with i3 assms(6) have "s \<in> fst ` set (entities st)" by (auto simp: mod_inv_def uncovered_def)
  then show ?thesis unfolding e by (simp add: map_of_eq_None_iff)
qed

lemma wf_g2: "\<forall>a. wf_node (node_at g2 a)"
  by (simp add: g2_def mk_node_def wf_node_def)

theorem parse_arguments_in_entities_witness:
  "valid_runtime rt0 \<and> (\<forall>a. wf_node (node_at g2 a)) \<and>
   \<not> isl (parse rt0 cfg0 dep2 g2 ner2) \<and>
   map_option Arguments (map_of (Predicates (projr (parse rt0 cfg0 dep2 g2 ner2))) ''P4'') =
     Some [''A2'', ''A1''] \<and>
   is_entity_symbol ''A1'' \<and>
   map_of (Entities (projr (parse rt0 cfg0 dep2 g2 ner2))) ''A1'' \<noteq> None"
proof -
  let ?r = "projr (parse rt0 cfg0 dep2 g2 ner2)"
  have ok: "\<not> isl (parse rt0 cfg0 dep2 g2 ner2)" by code_simp
  then have r: "parse rt0 cfg0 dep2 g2 ner2 = Inr ?r"
    by (cases "parse rt0 cfg0 dep2 g2 ner2") auto
  have a: "map_option Arguments (map_of (Predicates ?r) ''P4'') = Some [''A2'', ''A1'']"
    by code_simp
  then obtain rec where rec: "map_of (Predicates ?r) ''P4'' = Some rec"
    and args: "Arguments rec = [''A2'', ''A1'']" by auto
  have e: "is_entity_symbol ''A1''" by code_simp
  have wf: "\<forall>a. \<not> is_implicit (node_at g2 a) \<longrightarrow> wf_node (node_at g2 a)"
    using wf_g2 by simp
  have "''A1'' \<in> set (Arguments rec)" by (simp add: args)
  from parse_arguments_in_entities[OF valid_runtime_rt0 wf r rec this e]
  show ?thesis using valid_runtime_rt0 wf_g2 ok a e by blast
qed

subsection \<open>Two runs of the pipeline\<close>






end
